theory Spec2Isabelle
  imports Main "HOL-Library.Word" "HOL-Library.Signed_Division"
begin

section \<open>Tokens and positions\<close>

text \<open>
  \<^verbatim>\<open>type Token int\<close> with the constants \<^verbatim>\<open>EOF = iota, ILLEGAL, IDENT, INT, ADD, SUB, MUL, DIV\<close>.
  The program builds no other token value, so the enumeration is a datatype (\<open>INT_tok\<close> is
  the constant \<^verbatim>\<open>INT\<close>, a reserved word of the logic's syntax).
\<close>

datatype Token = EOF | ILLEGAL | IDENT | INT_tok | ADD | SUB | MUL | DIV

text \<open>The table \<^verbatim>\<open>var tokens = []string{...}\<close>.\<close>

fun tokens :: "Token \<Rightarrow> string" where
  "tokens EOF = ''EOF''"
| "tokens ILLEGAL = ''ILLEGAL''"
| "tokens IDENT = ''IDENT''"
| "tokens INT_tok = ''INT''"
| "tokens ADD = ''+''"
| "tokens SUB = ''-''"
| "tokens MUL = ''*''"
| "tokens DIV = ''/''"

text \<open>
  The two counters of a position are of type \<^verbatim>\<open>int\<close>; they count runes and lines of the
  input and are far from its bounds, so they are integers here.
\<close>

record Position =
  line :: int
  column :: int

section \<open>Runes and the Unicode predicates\<close>

text \<open>
  The lexer reads runes (Unicode code points) with \<^verbatim>\<open>bufio.Reader.ReadRune\<close>. A rune is
  its code point; the input of the program is the sequence of runes that \<^verbatim>\<open>ReadRune\<close>
  decodes from standard input (an invalid byte is the rune U+FFFD there).

  \<^verbatim>\<open>unicode.IsDigit\<close> and \<^verbatim>\<open>unicode.IsSpace\<close> decide code points up to U+00FF
  (\<^verbatim>\<open>MaxLatin1\<close>) by comparison and all others by the range tables \<^verbatim>\<open>unicode.Digit\<close> and
  \<^verbatim>\<open>unicode.White_Space\<close> of the Go release.  The tables are a parameter of the model:
  every general theorem below holds for all tables.
\<close>

type_synonym rune = nat

record unicode =
  Digit :: "rune \<Rightarrow> bool"
  White_Space :: "rune \<Rightarrow> bool"

definition MaxLatin1 :: rune where
  "MaxLatin1 = 255"

definition IsDigit :: "unicode \<Rightarrow> rune \<Rightarrow> bool" where
  "IsDigit U r = (if r \<le> MaxLatin1 then 48 \<le> r \<and> r \<le> 57 else Digit U r)"

definition IsSpace :: "unicode \<Rightarrow> rune \<Rightarrow> bool" where
  "IsSpace U r =
     (if r \<le> MaxLatin1
      then r = 9 \<or> r = 10 \<or> r = 11 \<or> r = 12 \<or> r = 13 \<or> r = 32 \<or> r = 133 \<or> r = 160
      else White_Space U r)"

text \<open>
  Tables that classify nothing beyond Latin-1; the closed examples below use them.  Their
  inputs are ASCII, where no table is consulted.
\<close>

definition latin1 :: unicode where
  "latin1 = \<lparr>Digit = (\<lambda>r. False), White_Space = (\<lambda>r. False)\<rparr>"

text \<open>The runes of an ASCII text.\<close>

definition runes :: "string \<Rightarrow> rune list" where
  "runes s = map of_char s"

section \<open>The buffered reader\<close>

text \<open>
  The part of \<^verbatim>\<open>bufio.Reader\<close> the lexer uses.  \<^verbatim>\<open>ReadRune\<close> returns the next rune, or
  \<^verbatim>\<open>io.EOF\<close> when there is none.  \<^verbatim>\<open>UnreadRune\<close> unreads the last rune; as its
  documentation says, "if the most recently called method on the Reader was not a
  ReadRune, UnreadRune returns an error": the reader keeps the size of the last rune read,
  sets it to -1 at the start of every \<^verbatim>\<open>ReadRune\<close> (so also in one that ends in
  \<^verbatim>\<open>io.EOF\<close>) and in every \<^verbatim>\<open>UnreadRune\<close>, and \<^verbatim>\<open>UnreadRune\<close> returns
  \<^verbatim>\<open>ErrInvalidUnreadRune\<close> when it is negative.

  \<open>pending\<close> holds the runes not yet read, \<open>lastRune\<close> the rune that can be unread.
  A read error other than \<^verbatim>\<open>io.EOF\<close> is outside the model: the input is a finite
  sequence of runes.
\<close>

record Reader =
  pending :: "rune list"
  lastRune :: "rune option"

definition ReadRune :: "Reader \<Rightarrow> rune option \<times> Reader" where
  "ReadRune b =
     (case pending b of
        [] \<Rightarrow> (None, b\<lparr>lastRune := None\<rparr>)
      | r # rs \<Rightarrow> (Some r, \<lparr>pending = rs, lastRune = Some r\<rparr>))"

definition UnreadRune :: "Reader \<Rightarrow> Reader option" where
  "UnreadRune b =
     (case lastRune b of
        None \<Rightarrow> None
      | Some r \<Rightarrow> Some \<lparr>pending = r # pending b, lastRune = None\<rparr>)"

section \<open>The lexer\<close>

text \<open>
  \<^verbatim>\<open>log.Fatal\<close> and \<^verbatim>\<open>log.Fatalf\<close> end the process; a function that can reach one returns
  \<open>fatal + 'a\<close>, with \<open>Inl\<close> for the abort and its message.
\<close>

datatype fatal =
    ErrInvalidUnreadRune
  | UnexpectedToken Token
  | EvalError string

record Lexer =
  pos :: Position
  reader :: Reader

definition NewLexer :: "rune list \<Rightarrow> Lexer" where
  "NewLexer input =
     \<lparr>pos = \<lparr>line = 1, column = 0\<rparr>, reader = \<lparr>pending = input, lastRune = None\<rparr>\<rparr>"

definition resetPosition :: "Lexer \<Rightarrow> Lexer" where
  "resetPosition l = l\<lparr>pos := \<lparr>line = line (pos l) + 1, column = 0\<rparr>\<rparr>"

text \<open>The statement \<^verbatim>\<open>l.pos.column++\<close> after a rune was read into reader state \<open>b\<close>.\<close>

definition consumed :: "Lexer \<Rightarrow> Reader \<Rightarrow> Lexer" where
  "consumed l b = l\<lparr>reader := b, pos := (pos l)\<lparr>column := column (pos l) + 1\<rparr>\<rparr>"

definition backup :: "Lexer \<Rightarrow> fatal + Lexer" where
  "backup l =
     (case UnreadRune (reader l) of
        None \<Rightarrow> Inl ErrInvalidUnreadRune
      | Some b \<Rightarrow> Inr (l\<lparr>reader := b, pos := (pos l)\<lparr>column := column (pos l) - 1\<rparr>\<rparr>))"

text \<open>The loop of \<^verbatim>\<open>lexInt\<close>, with the literal read so far.\<close>

function lexInt_loop :: "unicode \<Rightarrow> Lexer \<Rightarrow> rune list \<Rightarrow> fatal + (rune list \<times> Lexer)" where
  "lexInt_loop U l lit =
     (case ReadRune (reader l) of
        (None, b) \<Rightarrow> Inr (lit, l\<lparr>reader := b\<rparr>)
      | (Some r, b) \<Rightarrow>
          if IsDigit U r then lexInt_loop U (consumed l b) (lit @ [r])
          else (case backup (consumed l b) of
                  Inl e \<Rightarrow> Inl e
                | Inr l' \<Rightarrow> Inr (lit, l')))"
  by pat_completeness auto
termination
  by (relation "measure (\<lambda>(U, l, lit). length (pending (reader l)))")
     (auto simp: ReadRune_def consumed_def split: list.splits)

declare lexInt_loop.simps [simp del]

definition lexInt :: "unicode \<Rightarrow> Lexer \<Rightarrow> fatal + (rune list \<times> Lexer)" where
  "lexInt U l = lexInt_loop U l []"

text \<open>
  \<^verbatim>\<open>Lex\<close>.  The runes of its \<^verbatim>\<open>switch\<close> by their code points: 10 is the newline, 43 is
  \<^verbatim>\<open>+\<close>, 45 is \<^verbatim>\<open>-\<close>, 42 is \<^verbatim>\<open>*\<close> and 47 is \<^verbatim>\<open>/\<close>.  The literal of a token is the list of its
  runes.
\<close>

function Lex :: "unicode \<Rightarrow> Lexer \<Rightarrow> fatal + ((Token \<times> rune list) \<times> Lexer)" where
  "Lex U l =
     (case ReadRune (reader l) of
        (None, b) \<Rightarrow> Inr ((EOF, []), l\<lparr>reader := b\<rparr>)
      | (Some r, b) \<Rightarrow>
          if r = 10 then Lex U (resetPosition (consumed l b))
          else if r = 43 then Inr ((ADD, [43]), consumed l b)
          else if r = 45 then Inr ((SUB, [45]), consumed l b)
          else if r = 42 then Inr ((MUL, [42]), consumed l b)
          else if r = 47 then Inr ((DIV, [47]), consumed l b)
          else if IsSpace U r then Lex U (consumed l b)
          else if IsDigit U r then
            (case backup (consumed l b) of
               Inl e \<Rightarrow> Inl e
             | Inr l' \<Rightarrow>
                 (case lexInt U l' of
                    Inl e \<Rightarrow> Inl e
                  | Inr (lit, l'') \<Rightarrow> Inr ((INT_tok, lit), l'')))
          else Inr ((ILLEGAL, [r]), consumed l b))"
  by pat_completeness auto
termination
  by (relation "measure (\<lambda>(U, l). length (pending (reader l)))")
     (auto simp: ReadRune_def consumed_def resetPosition_def split: list.splits)

declare Lex.simps [simp del]

text \<open>
  The runes of which \<^verbatim>\<open>Lex\<close> makes no token \<^verbatim>\<open>ILLEGAL\<close>: the newline, the four operators,
  the spaces and the digits.
\<close>

definition legal :: "unicode \<Rightarrow> rune \<Rightarrow> bool" where
  "legal U r =
     (r = 10 \<or> r = 43 \<or> r = 45 \<or> r = 42 \<or> r = 47 \<or> IsSpace U r \<or> IsDigit U r)"

subsection \<open>What one call of the lexer does\<close>

lemma lexInt_loop_eq:
  "pending (reader l) = p \<Longrightarrow> lexInt_loop U l lit =
     Inr (lit @ takeWhile (IsDigit U) p,
          \<lparr>pos = (pos l)\<lparr>column := column (pos l) + int (length (takeWhile (IsDigit U) p))\<rparr>,
           reader = \<lparr>pending = dropWhile (IsDigit U) p, lastRune = None\<rparr>\<rparr>)"
proof (induction p arbitrary: l lit)
  case Nil
  then show ?case
    by (subst lexInt_loop.simps) (simp add: ReadRune_def)
next
  case (Cons r rs)
  have rd: "ReadRune (reader l) = (Some r, \<lparr>pending = rs, lastRune = Some r\<rparr>)"
    using Cons.prems by (simp add: ReadRune_def)
  show ?case
  proof (cases "IsDigit U r")
    case True
    have "pending (reader (consumed l \<lparr>pending = rs, lastRune = Some r\<rparr>)) = rs"
      by (simp add: consumed_def)
    from Cons.IH [OF this, of "lit @ [r]"] True rd show ?thesis
      by (subst lexInt_loop.simps) (simp add: consumed_def)
  next
    case False
    with rd show ?thesis
      by (subst lexInt_loop.simps) (simp add: consumed_def backup_def UnreadRune_def)
  qed
qed

lemma ReadRune_Nil: "pending b = [] \<Longrightarrow> ReadRune b = (None, b\<lparr>lastRune := None\<rparr>)"
  by (simp add: ReadRune_def)

lemma ReadRune_Cons:
  "pending b = r # rs \<Longrightarrow> ReadRune b = (Some r, \<lparr>pending = rs, lastRune = Some r\<rparr>)"
  by (simp add: ReadRune_def)

lemma backup_consumed:
  "backup (consumed l \<lparr>pending = rs, lastRune = Some r\<rparr>) =
     Inr (l\<lparr>reader := \<lparr>pending = r # rs, lastRune = None\<rparr>\<rparr>)"
  by (simp add: backup_def consumed_def UnreadRune_def)

lemma lexInt_eq:
  "lexInt U l =
     Inr (takeWhile (IsDigit U) (pending (reader l)),
          \<lparr>pos = (pos l)\<lparr>column := column (pos l)
                  + int (length (takeWhile (IsDigit U) (pending (reader l))))\<rparr>,
           reader = \<lparr>pending = dropWhile (IsDigit U) (pending (reader l)), lastRune = None\<rparr>\<rparr>)"
  by (simp add: lexInt_def lexInt_loop_eq [OF refl])

lemma Lex_Nil:
  "pending (reader l) = [] \<Longrightarrow>
     Lex U l = Inr ((EOF, []), l\<lparr>reader := (reader l)\<lparr>lastRune := None\<rparr>\<rparr>)"
  by (subst Lex.simps) (simp add: ReadRune_Nil)

lemma Lex_Cons:
  "pending (reader l) = r # rs \<Longrightarrow>
     Lex U l =
       (if r = 10 then Lex U (resetPosition (consumed l \<lparr>pending = rs, lastRune = Some r\<rparr>))
        else if r = 43 then Inr ((ADD, [43]), consumed l \<lparr>pending = rs, lastRune = Some r\<rparr>)
        else if r = 45 then Inr ((SUB, [45]), consumed l \<lparr>pending = rs, lastRune = Some r\<rparr>)
        else if r = 42 then Inr ((MUL, [42]), consumed l \<lparr>pending = rs, lastRune = Some r\<rparr>)
        else if r = 47 then Inr ((DIV, [47]), consumed l \<lparr>pending = rs, lastRune = Some r\<rparr>)
        else if IsSpace U r then Lex U (consumed l \<lparr>pending = rs, lastRune = Some r\<rparr>)
        else if IsDigit U r then
          Inr ((INT_tok, r # takeWhile (IsDigit U) rs),
               \<lparr>pos = (pos l)\<lparr>column := column (pos l) + 1 + int (length (takeWhile (IsDigit U) rs))\<rparr>,
                reader = \<lparr>pending = dropWhile (IsDigit U) rs, lastRune = None\<rparr>\<rparr>)
        else Inr ((ILLEGAL, [r]), consumed l \<lparr>pending = rs, lastRune = Some r\<rparr>))"
  by (subst Lex.simps) (simp add: ReadRune_Cons backup_consumed lexInt_eq)

lemma Lex_consumes:
  "Lex U l = Inr ((tok, lit), l') \<Longrightarrow>
     length (pending (reader l')) \<le> length (pending (reader l)) \<and>
     (tok \<noteq> EOF \<longrightarrow> length (pending (reader l')) < length (pending (reader l)))"
proof (induction "pending (reader l)" arbitrary: l)
  case Nil
  then show ?case
    using Lex_Nil [of l U] by auto
next
  case (Cons r rs)
  note eq = Lex_Cons [OF Cons.hyps(2) [symmetric], of U]
  have len: "length (dropWhile (IsDigit U) rs) \<le> length rs"
    by (rule length_dropWhile_le)
  have rec: "\<And>l1. pending (reader l1) = rs \<Longrightarrow> Lex U l1 = Inr ((tok, lit), l') \<Longrightarrow>
     length (pending (reader l')) \<le> length rs"
    using Cons.hyps(1) by metis
  from Cons.prems show ?case
    unfolding eq using len
    by (auto simp: Cons.hyps(2) [symmetric] consumed_def resetPosition_def
          split: if_splits dest!: rec [rotated])
qed

lemma Lex_lastRune:
  "Lex U l = Inr ((tok, lit), l') \<Longrightarrow>
     (case lastRune (reader l') of
        None \<Rightarrow> tok = EOF \<or> tok = INT_tok
      | Some r \<Rightarrow> lit = [r] \<and> tok \<noteq> EOF \<and> tok \<noteq> INT_tok \<and> tok \<noteq> IDENT \<and>
          (tok = ADD \<longleftrightarrow> r = 43) \<and> (tok = SUB \<longleftrightarrow> r = 45) \<and>
          (tok = MUL \<longleftrightarrow> r = 42) \<and> (tok = DIV \<longleftrightarrow> r = 47) \<and>
          (tok = ILLEGAL \<longrightarrow> r \<noteq> 10 \<and> \<not> IsSpace U r \<and> \<not> IsDigit U r))"
proof (induction "pending (reader l)" arbitrary: l)
  case Nil
  then show ?case
    using Lex_Nil [of l U] by auto
next
  case (Cons r rs)
  note eq = Lex_Cons [OF Cons.hyps(2) [symmetric], of U]
  have rec: "\<And>l1. pending (reader l1) = rs \<Longrightarrow> Lex U l1 = Inr ((tok, lit), l') \<Longrightarrow> ?case"
    using Cons.hyps(1) by metis
  from Cons.prems show ?case
    unfolding eq
    by (auto simp: consumed_def resetPosition_def split: if_splits intro: rec [rotated])
qed

lemma Lex_backup_consumes:
  "Lex U l = Inr ((tok, lit), l1) \<Longrightarrow> backup l1 = Inr l2 \<Longrightarrow>
     length (pending (reader l2)) \<le> length (pending (reader l))"
  using Lex_consumes [of U l tok lit l1] Lex_lastRune [of U l tok lit l1]
  by (auto simp: backup_def UnreadRune_def split: option.splits)

lemma Lex_pending_subset:
  "Lex U l = Inr (t, l') \<Longrightarrow> set (pending (reader l')) \<subseteq> set (pending (reader l))"
proof (induction "pending (reader l)" arbitrary: l)
  case Nil
  then show ?case
    using Lex_Nil [of l U] by auto
next
  case (Cons r rs)
  note eq = Lex_Cons [OF Cons.hyps(2) [symmetric], of U]
  have rec: "\<And>l1. pending (reader l1) = rs \<Longrightarrow> Lex U l1 = Inr (t, l') \<Longrightarrow>
      set (pending (reader l')) \<subseteq> set rs"
    using Cons.hyps(1) by metis
  have drop: "set (dropWhile (IsDigit U) rs) \<subseteq> set rs"
    by (auto dest: set_dropWhileD)
  from Cons.prems show ?case
    unfolding eq Cons.hyps(2) [symmetric] using drop
    by (auto simp: consumed_def resetPosition_def split: if_splits dest!: rec [rotated])
qed

lemma Lex_single:
  "Lex U l = Inr ((tok, lit), l') \<Longrightarrow> lastRune (reader l') = Some r \<Longrightarrow>
     \<exists>ws. pending (reader l) = ws @ r # pending (reader l') \<and>
          list_all (\<lambda>w. w = 10 \<or> IsSpace U w) ws"
proof (induction "pending (reader l)" arbitrary: l)
  case Nil
  then show ?case
    using Lex_Nil [of l U] by auto
next
  case (Cons r0 rs)
  note eq = Lex_Cons [OF Cons.hyps(2) [symmetric], of U]
  have rec: "\<exists>ws. r0 # rs = ws @ r # pending (reader l') \<and>
      list_all (\<lambda>w. w = 10 \<or> IsSpace U w) ws"
    if "pending (reader l1) = rs" "Lex U l1 = Inr ((tok, lit), l')" "r0 = 10 \<or> IsSpace U r0"
    for l1
  proof -
    from Cons.hyps(1) [OF that(1) [symmetric] that(2) Cons.prems(2)] that(1)
    obtain ws where "rs = ws @ r # pending (reader l')" "list_all (\<lambda>w. w = 10 \<or> IsSpace U w) ws"
      by auto
    with that(3) have "r0 # rs = (r0 # ws) @ r # pending (reader l')"
      "list_all (\<lambda>w. w = 10 \<or> IsSpace U w) (r0 # ws)"
      by simp_all
    then show ?thesis by blast
  qed
  let ?l1 = "consumed l \<lparr>pending = rs, lastRune = Some r0\<rparr>"
  from Cons.prems(1) [unfolded eq] consider
    (newline) "r0 = 10" "Lex U (resetPosition ?l1) = Inr ((tok, lit), l')"
    | (space) "IsSpace U r0" "Lex U ?l1 = Inr ((tok, lit), l')"
    | (single) "l' = ?l1"
    | (number) "lastRune (reader l') = None"
    by (auto split: if_splits)
  then show ?case
  proof cases
    case newline
    then show ?thesis
      using rec [of "resetPosition ?l1"] Cons.hyps(2)
      by (simp add: resetPosition_def consumed_def)
  next
    case space
    then show ?thesis
      using rec [of ?l1] Cons.hyps(2)
      by (simp add: consumed_def)
  next
    case single
    with Cons.prems(2) have "pending (reader l) = [] @ r # pending (reader l')"
      using Cons.hyps(2) by (simp add: consumed_def)
    then show ?thesis
      by (intro exI [of _ "[]"]) simp
  next
    case number
    with Cons.prems(2) show ?thesis by simp
  qed
qed

lemma Lex_unread:
  assumes "Lex U l = Inr ((tok, lit), l1)" and "backup l1 = Inr l2"
  shows "\<exists>r. pending (reader l2) = r # pending (reader l1) \<and> lastRune (reader l2) = None \<and>
           lastRune (reader l1) = Some r \<and> pos l2 = (pos l1)\<lparr>column := column (pos l1) - 1\<rparr> \<and>
           (\<exists>ws. pending (reader l) = ws @ pending (reader l2) \<and>
              list_all (\<lambda>w. w = 10 \<or> IsSpace U w) ws)"
proof -
  from assms(2) obtain r where r: "lastRune (reader l1) = Some r"
    and l2: "l2 = l1\<lparr>reader := \<lparr>pending = r # pending (reader l1), lastRune = None\<rparr>,
                    pos := (pos l1)\<lparr>column := column (pos l1) - 1\<rparr>\<rparr>"
    by (auto simp: backup_def UnreadRune_def split: option.splits)
  from Lex_single [OF assms(1) r] l2 r show ?thesis
    by auto
qed

section \<open>The syntax tree\<close>

text \<open>
  \<^verbatim>\<open>Expression\<close> is an interface with the methods \<^verbatim>\<open>Pos\<close> and \<^verbatim>\<open>String\<close>; the program
  implements it by \<^verbatim>\<open>*BinaryExpression\<close> and \<^verbatim>\<open>*IntegerLiteral\<close>.  \<open>OtherExpression\<close>
  stands for any other value of the interface, known by what its two methods return: the
  \<^verbatim>\<open>default\<close> branch of the evaluator's type switch is for it.  The marker method
  \<^verbatim>\<open>exprNode\<close> is never called.  \<^verbatim>\<open>int\<close> is the 64-bit signed integer of the 64-bit
  targets.
\<close>

type_synonym int64 = "64 word"

datatype Expression =
    BinaryExpression Expression Token Expression Position
  | IntegerLiteral int64 Position
  | OtherExpression Position string

fun Pos :: "Expression \<Rightarrow> Position" where
  "Pos (BinaryExpression left op right p) = p"
| "Pos (IntegerLiteral v p) = p"
| "Pos (OtherExpression p s) = p"

text \<open>\<^verbatim>\<open>strconv.Itoa\<close>: the decimal digits, after a minus sign for a negative number.\<close>

fun decimal_digits :: "nat \<Rightarrow> string" where
  "decimal_digits n =
     (if n < 10 then [''0123456789'' ! n]
      else decimal_digits (n div 10) @ [''0123456789'' ! (n mod 10)])"

declare decimal_digits.simps [simp del]

definition Itoa :: "int64 \<Rightarrow> string" where
  "Itoa v =
     (if sint v < 0 then CHR ''-'' # decimal_digits (nat (- sint v))
      else decimal_digits (nat (sint v)))"

text \<open>The methods \<^verbatim>\<open>String\<close>; the binary one is \<^verbatim>\<open>fmt.Sprintf("(%s %s %s)", ...)\<close>.\<close>

fun String :: "Expression \<Rightarrow> string" where
  "String (BinaryExpression left op right p) =
     ''('' @ String left @ '' '' @ tokens op @ '' '' @ String right @ '')''"
| "String (IntegerLiteral v p) = Itoa v"
| "String (OtherExpression p s) = s"

section \<open>The conversion of a literal\<close>

text \<open>
  A Go string is a sequence of bytes.  The literal of a token is kept as the list of the
  runes it was built from (\<^verbatim>\<open>lit + string(r)\<close>); \<open>bytes\<close> gives the string itself, each
  rune in its UTF-8 encoding, as \<^verbatim>\<open>string(r)\<close> encodes it (U+FFFD for a value that is no
  code point).
\<close>

type_synonym byte = nat

definition encodeRune :: "rune \<Rightarrow> byte list" where
  "encodeRune r =
     (if r < 128 then [r]
      else if r < 2048 then [192 + r div 64, 128 + r mod 64]
      else if (55296 \<le> r \<and> r \<le> 57343) \<or> 1114111 < r then [239, 191, 189]
      else if r < 65536 then [224 + r div 4096, 128 + r div 64 mod 64, 128 + r mod 64]
      else [240 + r div 262144, 128 + r div 4096 mod 64, 128 + r div 64 mod 64,
            128 + r mod 64])"

definition bytes :: "rune list \<Rightarrow> byte list" where
  "bytes s = concat (map encodeRune s)"

text \<open>
  \<^verbatim>\<open>strconv.Atoi\<close> and the functions it calls, \<^verbatim>\<open>ParseInt(s, 10, 0)\<close> and
  \<^verbatim>\<open>ParseUint(s, 10, 0)\<close>, written out for base 10 and the size 64 of \<^verbatim>\<open>int\<close>; the result
  is the number and the error (\<open>None\<close> for \<^verbatim>\<open>nil\<close>).

  \<^verbatim>\<open>ParseUint\<close> goes through the bytes: a byte that is no decimal digit ends it with
  \<^verbatim>\<open>ErrSyntax\<close> and 0; a digit that makes the \<^verbatim>\<open>uint64\<close> overflow ends it with \<^verbatim>\<open>ErrRange\<close>
  and the largest \<^verbatim>\<open>uint64\<close>, whatever follows.  The number \<open>n\<close> is a \<^verbatim>\<open>uint64\<close>: an
  integer with the wrap-around \<open>mod 2 ^ 64\<close> written out.
\<close>

datatype NumError = ErrSyntax | ErrRange

definition maxUint64 :: int where
  "maxUint64 = 2 ^ 64 - 1"

fun ParseUint_loop :: "int \<Rightarrow> byte list \<Rightarrow> int \<times> NumError option" where
  "ParseUint_loop n [] = (n, None)"
| "ParseUint_loop n (c # cs) =
     (if \<not> (48 \<le> c \<and> c \<le> 57) then (0, Some ErrSyntax)
      else if maxUint64 div 10 + 1 \<le> n then (maxUint64, Some ErrRange)
      else
        (let n' = n * 10 mod 2 ^ 64;
             n1 = (n' + (int c - 48)) mod 2 ^ 64
         in if n1 < n' \<or> maxUint64 < n1 then (maxUint64, Some ErrRange)
            else ParseUint_loop n1 cs))"

definition ParseUint :: "byte list \<Rightarrow> int \<times> NumError option" where
  "ParseUint s = (if s = [] then (0, Some ErrSyntax) else ParseUint_loop 0 s)"

text \<open>
  \<^verbatim>\<open>ParseInt\<close>: the sign, then \<^verbatim>\<open>ParseUint\<close>; an error other than \<^verbatim>\<open>ErrRange\<close> is returned
  with 0, and a number beyond the range of \<^verbatim>\<open>int64\<close> is replaced by the nearest bound, with
  \<^verbatim>\<open>ErrRange\<close>.
\<close>

definition ParseInt :: "byte list \<Rightarrow> int64 \<times> NumError option" where
  "ParseInt s =
     (if s = [] then (0, Some ErrSyntax)
      else
        (let neg = (hd s = 45);
             s' = (if hd s = 43 \<or> hd s = 45 then tl s else s)
         in case ParseUint s' of
              (un, err) \<Rightarrow>
                if err \<noteq> None \<and> err \<noteq> Some ErrRange then (0, err)
                else if \<not> neg \<and> 2 ^ 63 \<le> un then (word_of_int (2 ^ 63 - 1), Some ErrRange)
                else if neg \<and> 2 ^ 63 < un then (- word_of_int (2 ^ 63), Some ErrRange)
                else (if neg then - word_of_int un else word_of_int un, None)))"

text \<open>
  \<^verbatim>\<open>Atoi\<close>: for a string of fewer than 19 bytes the fast path (the loop over the bytes is
  \<open>Atoi_fast\<close>; \<^verbatim>\<open>ch -= '0'\<close> wraps around in a byte), and \<^verbatim>\<open>ParseInt\<close> otherwise.
\<close>

fun Atoi_fast :: "int64 \<Rightarrow> byte list \<Rightarrow> int64 option" where
  "Atoi_fast n [] = Some n"
| "Atoi_fast n (ch # s) =
     (let ch' = (ch + 208) mod 256
      in if 9 < ch' then None else Atoi_fast (n * 10 + word_of_nat ch') s)"

definition Atoi :: "byte list \<Rightarrow> int64 \<times> NumError option" where
  "Atoi s0 =
     (if 0 < length s0 \<and> length s0 < 19 then
        (let s = (if hd s0 = 45 \<or> hd s0 = 43 then tl s0 else s0)
         in if length s < 1 then (0, Some ErrSyntax)
            else case Atoi_fast 0 s of
                   None \<Rightarrow> (0, Some ErrSyntax)
                 | Some n \<Rightarrow> (if hd s0 = 45 then - n else n, None))
      else ParseInt s0)"

text \<open>The number that decimal digits denote, continuing from \<open>n\<close>.\<close>

definition decimal_value :: "int \<Rightarrow> byte list \<Rightarrow> int" where
  "decimal_value n cs = foldl (\<lambda>n c. n * 10 + (int c - 48)) n cs"

section \<open>The parser\<close>

definition parsePrimaryExpr :: "unicode \<Rightarrow> Lexer \<Rightarrow> fatal + (Expression \<times> Lexer)" where
  "parsePrimaryExpr U l =
     (case Lex U l of
        Inl e \<Rightarrow> Inl e
      | Inr ((tok, lit), l') \<Rightarrow>
          if tok = INT_tok then Inr (IntegerLiteral (fst (Atoi (bytes lit))) (pos l'), l')
          else Inl (UnexpectedToken tok))"

lemma parsePrimaryExpr_consumes:
  "parsePrimaryExpr U l = Inr (e, l') \<Longrightarrow>
     length (pending (reader l')) < length (pending (reader l))"
  by (auto simp: parsePrimaryExpr_def split: sum.splits prod.splits if_splits
        dest: Lex_consumes)

text \<open>The loop of \<^verbatim>\<open>parseMulDivExpr\<close>, with the expression built so far.\<close>

function parseMulDiv_loop ::
  "unicode \<Rightarrow> Lexer \<Rightarrow> Expression \<Rightarrow> fatal + (Expression \<times> Lexer)" where
  "parseMulDiv_loop U l left =
     (case Lex U l of
        Inl e \<Rightarrow> Inl e
      | Inr ((tok, lit), l1) \<Rightarrow>
          if tok \<noteq> MUL \<and> tok \<noteq> DIV then
            (case backup l1 of
               Inl e \<Rightarrow> Inl e
             | Inr l2 \<Rightarrow> Inr (left, l2))
          else
            (case parsePrimaryExpr U l1 of
               Inl e \<Rightarrow> Inl e
             | Inr (right, l2) \<Rightarrow>
                 parseMulDiv_loop U l2 (BinaryExpression left tok right (Pos left))))"
  by pat_completeness auto
termination
  by (relation "measure (\<lambda>(U, l, left). length (pending (reader l)))")
     (auto dest!: Lex_consumes parsePrimaryExpr_consumes)

declare parseMulDiv_loop.simps [simp del]

definition parseMulDivExpr :: "unicode \<Rightarrow> Lexer \<Rightarrow> fatal + (Expression \<times> Lexer)" where
  "parseMulDivExpr U l =
     (case parsePrimaryExpr U l of
        Inl e \<Rightarrow> Inl e
      | Inr (left, l') \<Rightarrow> parseMulDiv_loop U l' left)"

lemma parseMulDiv_loop_consumes:
  "parseMulDiv_loop U l left = Inr (e, l') \<Longrightarrow>
     length (pending (reader l')) \<le> length (pending (reader l))"
proof (induction U l left rule: parseMulDiv_loop.induct)
  case (1 U l left)
  note run = "1.prems" [unfolded parseMulDiv_loop.simps [of U l left]]
  show ?case
  proof (cases "Lex U l")
    case (Inl f)
    with run show ?thesis by simp
  next
    case (Inr x)
    then obtain tok lit l1 where lex: "Lex U l = Inr ((tok, lit), l1)"
      by (cases x) auto
    show ?thesis
    proof (cases "tok \<noteq> MUL \<and> tok \<noteq> DIV")
      case True
      with run lex have "backup l1 = Inr l'"
        by (auto split: sum.splits)
      with lex show ?thesis
        by (rule Lex_backup_consumes)
    next
      case False
      with run lex obtain right l2 where
        prim: "parsePrimaryExpr U l1 = Inr (right, l2)" and
        rest: "parseMulDiv_loop U l2 (BinaryExpression left tok right (Pos left)) = Inr (e, l')"
        by (auto split: sum.splits)
      have "length (pending (reader l')) \<le> length (pending (reader l2))"
        using "1.IH" [OF lex refl refl False prim refl rest] .
      with Lex_consumes [OF lex] parsePrimaryExpr_consumes [OF prim] show ?thesis
        by simp
    qed
  qed
qed

lemma parseMulDivExpr_consumes:
  "parseMulDivExpr U l = Inr (e, l') \<Longrightarrow>
     length (pending (reader l')) \<le> length (pending (reader l))"
  by (auto simp: parseMulDivExpr_def split: sum.splits
        dest!: parsePrimaryExpr_consumes parseMulDiv_loop_consumes)

text \<open>The loop of \<^verbatim>\<open>parseAddSubExpr\<close>, with the expression built so far.\<close>

function parseAddSub_loop ::
  "unicode \<Rightarrow> Lexer \<Rightarrow> Expression \<Rightarrow> fatal + (Expression \<times> Lexer)" where
  "parseAddSub_loop U l left =
     (case Lex U l of
        Inl e \<Rightarrow> Inl e
      | Inr ((tok, lit), l1) \<Rightarrow>
          if tok \<noteq> ADD \<and> tok \<noteq> SUB then
            (case backup l1 of
               Inl e \<Rightarrow> Inl e
             | Inr l2 \<Rightarrow> Inr (left, l2))
          else
            (case parseMulDivExpr U l1 of
               Inl e \<Rightarrow> Inl e
             | Inr (right, l2) \<Rightarrow>
                 parseAddSub_loop U l2 (BinaryExpression left tok right (Pos left))))"
  by pat_completeness auto
termination
  by (relation "measure (\<lambda>(U, l, left). length (pending (reader l)))")
     (auto dest!: Lex_consumes parseMulDivExpr_consumes)

declare parseAddSub_loop.simps [simp del]

definition parseAddSubExpr :: "unicode \<Rightarrow> Lexer \<Rightarrow> fatal + (Expression \<times> Lexer)" where
  "parseAddSubExpr U l =
     (case parseMulDivExpr U l of
        Inl e \<Rightarrow> Inl e
      | Inr (left, l') \<Rightarrow> parseAddSub_loop U l' left)"

definition parseExpression :: "unicode \<Rightarrow> Lexer \<Rightarrow> fatal + (Expression \<times> Lexer)" where
  "parseExpression U l = parseAddSubExpr U l"

section \<open>The evaluator\<close>

text \<open>
  \<^verbatim>\<open>evaluateExpression\<close> returns \<^verbatim>\<open>(int, error)\<close>; with an error the number is 0 and the
  caller does not read it, so the result is the error (\<open>Inl\<close>, the text given to
  \<^verbatim>\<open>fmt.Errorf\<close>) or the number (\<open>Inr\<close>).  The operators are those of \<^verbatim>\<open>int\<close>: \<open>+\<close>,
  \<open>-\<close> and \<open>*\<close> wrap around; \<open>/\<close> is the quotient truncated towards zero (\<open>sdiv\<close> on
  the signed values), kept in 64 bits.
\<close>

definition quo :: "int64 \<Rightarrow> int64 \<Rightarrow> int64" where
  "quo x y = word_of_int (sint x sdiv sint y)"

fun evaluateExpression :: "Expression \<Rightarrow> string + int64" where
  "evaluateExpression (BinaryExpression l op r p) =
     (case evaluateExpression l of
        Inl err \<Rightarrow> Inl err
      | Inr left \<Rightarrow>
          (case evaluateExpression r of
             Inl err \<Rightarrow> Inl err
           | Inr right \<Rightarrow>
               (case op of
                  ADD \<Rightarrow> Inr (left + right)
                | SUB \<Rightarrow> Inr (left - right)
                | MUL \<Rightarrow> Inr (left * right)
                | DIV \<Rightarrow>
                    if right = 0 then Inl ''division by zero''
                    else Inr (quo left right)
                | _ \<Rightarrow> Inl ''unknown operator'')))"
| "evaluateExpression (IntegerLiteral v p) = Inr v"
| "evaluateExpression (OtherExpression p s) = Inl ''unknown expression type''"

text \<open>
  The evaluator with its calls recorded: the same recursion returns, beside the result, the
  expressions on which \<^verbatim>\<open>evaluateExpression\<close> was called, in the order of the calls.  A
  binary node calls on its left child, returns at once if that gave an error, and calls on
  its right child otherwise.
\<close>

fun traced :: "Expression \<Rightarrow> Expression list \<times> (string + int64)" where
  "traced (BinaryExpression l op r p) =
     (case traced l of
        (cl, Inl err) \<Rightarrow> (BinaryExpression l op r p # cl, Inl err)
      | (cl, Inr left) \<Rightarrow>
          (case traced r of
             (cr, Inl err) \<Rightarrow> (BinaryExpression l op r p # cl @ cr, Inl err)
           | (cr, Inr right) \<Rightarrow>
               (BinaryExpression l op r p # cl @ cr,
                case op of
                  ADD \<Rightarrow> Inr (left + right)
                | SUB \<Rightarrow> Inr (left - right)
                | MUL \<Rightarrow> Inr (left * right)
                | DIV \<Rightarrow>
                    if right = 0 then Inl ''division by zero''
                    else Inr (quo left right)
                | _ \<Rightarrow> Inl ''unknown operator'')))"
| "traced (IntegerLiteral v p) = ([IntegerLiteral v p], Inr v)"
| "traced (OtherExpression p s) = ([OtherExpression p s], Inl ''unknown expression type'')"

text \<open>The nodes of a tree in depth-first order, a node before its children, left before right.\<close>

fun preorder :: "Expression \<Rightarrow> Expression list" where
  "preorder (BinaryExpression l op r p) = BinaryExpression l op r p # preorder l @ preorder r"
| "preorder (IntegerLiteral v p) = [IntegerLiteral v p]"
| "preorder (OtherExpression p s) = [OtherExpression p s]"

text \<open>
  The trees of arithmetic: binary nodes with one of the four operators, over integer
  literals.
\<close>

fun arithmetic :: "Expression \<Rightarrow> bool" where
  "arithmetic (BinaryExpression l op r p) =
     ((op = ADD \<or> op = SUB \<or> op = MUL \<or> op = DIV) \<and> arithmetic l \<and> arithmetic r)"
| "arithmetic (IntegerLiteral v p) = True"
| "arithmetic (OtherExpression p s) = False"

text \<open>
  The trees of the grammar: a product is a literal, or a node with \<open>MUL\<close> or \<open>DIV\<close> whose left
  child is a product and whose right child is a literal; a sum of products is a product, or
  a node with \<open>ADD\<close> or \<open>SUB\<close> whose left child is a sum of products and whose right child is
  a product.
\<close>

fun product :: "Expression \<Rightarrow> bool" where
  "product (BinaryExpression l op r p) =
     ((op = MUL \<or> op = DIV) \<and> product l \<and> (case r of IntegerLiteral v q \<Rightarrow> True | _ \<Rightarrow> False))"
| "product (IntegerLiteral v p) = True"
| "product (OtherExpression p s) = False"

fun sum_of_products :: "Expression \<Rightarrow> bool" where
  "sum_of_products (BinaryExpression l op r p) =
     (if op = ADD \<or> op = SUB then sum_of_products l \<and> product r
      else product (BinaryExpression l op r p))"
| "sum_of_products (IntegerLiteral v p) = True"
| "sum_of_products (OtherExpression p s) = False"

section \<open>The program\<close>

text \<open>
  \<^verbatim>\<open>main\<close> on the runes of standard input: the lines printed on standard output, and the
  abort that ended the run, if one did.
\<close>

definition main :: "unicode \<Rightarrow> rune list \<Rightarrow> string list \<times> fatal option" where
  "main U input =
     (case parseExpression U (NewLexer input) of
        Inl f \<Rightarrow> ([], Some f)
      | Inr (expr, l) \<Rightarrow>
          (case evaluateExpression expr of
             Inl err \<Rightarrow> ([String expr], Some (EvalError err))
           | Inr result \<Rightarrow> ([String expr, Itoa result], None)))"

section \<open>Division in the evaluator\<close>

text \<open>
  The quotient of \<^verbatim>\<open>int\<close> is the truncated quotient of the two numbers, but for the one
  quotient that is no \<^verbatim>\<open>int\<close>: the least \<^verbatim>\<open>int\<close> divided by \<open>-1\<close> is the least \<^verbatim>\<open>int\<close> again.
\<close>

lemma div_le_self_int: "0 \<le> (a::int) \<Longrightarrow> 0 \<le> b \<Longrightarrow> a div b \<le> a"
  by (metis div_0 int_div_le_self linorder_not_less nle_le)

lemma sdiv_bounds:
  fixes x y :: int
  assumes "- (2 ^ 63) \<le> x" and "x < 2 ^ 63" and "x \<noteq> - (2 ^ 63) \<or> y \<noteq> - 1"
  shows "- (2 ^ 63) \<le> x sdiv y \<and> x sdiv y < 2 ^ 63"
proof -
  consider "x = 0 \<or> y = 0" | "0 < x" "0 < y" | "0 < x" "y < 0" | "x < 0" "0 < y"
    | "x < 0" "y < 0"
    by linarith
  then show ?thesis
  proof cases
    case 1
    then show ?thesis
      by (auto simp: signed_divide_int_def)
  next
    case 2
    then have "x sdiv y = x div y"
      by (simp add: signed_divide_int_def)
    moreover have "0 \<le> x div y" "x div y \<le> x"
      using 2 div_le_self_int [of x y] by (simp_all add: pos_imp_zdiv_nonneg_iff)
    ultimately show ?thesis
      using assms by simp
  next
    case 3
    then have "x sdiv y = - (x div - y)"
      by (simp add: signed_divide_int_def)
    moreover have "0 \<le> x div - y" "x div - y \<le> x"
      using 3 div_le_self_int [of x "- y"] by (simp_all add: pos_imp_zdiv_nonneg_iff)
    ultimately show ?thesis
      using assms by simp
  next
    case 4
    then have "x sdiv y = - (- x div y)"
      by (simp add: signed_divide_int_def)
    moreover have "0 \<le> - x div y" "- x div y \<le> - x"
      using 4 div_le_self_int [of "- x" y] by (simp_all add: pos_imp_zdiv_nonneg_iff)
    ultimately show ?thesis
      using assms by simp
  next
    case 5
    then have q: "x sdiv y = - x div - y"
      by (simp add: signed_divide_int_def)
    have pos: "0 \<le> - x div - y" "- x div - y \<le> - x"
      using 5 div_le_self_int [of "- x" "- y"] by (simp_all add: neg_imp_zdiv_nonneg_iff)
    show ?thesis
    proof (cases "y = - 1")
      case True
      with assms(3) have "x \<noteq> - (2 ^ 63)"
        by simp
      with assms(1) pos q show ?thesis
        by simp
    next
      case False
      with 5 have "2 \<le> - y"
        by simp
      then have "- x div - y \<le> - x div 2"
        using 5 by (intro zdiv_mono2) simp_all
      with assms(1) pos q show ?thesis
        by simp
    qed
  qed
qed

lemma quo_exact:
  assumes "sint x \<noteq> - (2 ^ 63) \<or> sint y \<noteq> - 1"
  shows "sint (quo x y) = sint x sdiv sint y"
proof -
  have "- (2 ^ 63) \<le> sint x" "sint x < 2 ^ 63"
    using sint_ge [of x] sint_lt [of x] by simp_all
  from sdiv_bounds [OF this assms] show ?thesis
    by (simp add: quo_def signed_of_int signed_take_bit_int_eq_self)
qed

lemma quo_overflow: "quo (word_of_int (- (2 ^ 63))) (- 1) = word_of_int (- (2 ^ 63))"
  by (simp add: quo_def signed_divide_int_def)

text \<open>
  C6. For a binary node with the operator \<open>DIV\<close> whose operands evaluate to \<open>a\<close> and \<open>b\<close>,
  the evaluator returns the error "division by zero" and no number when \<open>b\<close> is zero, and
  otherwise the quotient of the two signed values truncated towards zero, as an \<^verbatim>\<open>int\<close>.
\<close>

theorem evaluate_divide:
  assumes "evaluateExpression l = Inr a" and "evaluateExpression r = Inr b"
  shows "evaluateExpression (BinaryExpression l DIV r p) =
           (if b = 0 then Inl ''division by zero''
            else Inr (word_of_int (sint a sdiv sint b)))"
  using assms by (simp add: quo_def)

text \<open>The trees of \<^verbatim>\<open>7/2\<close>, \<^verbatim>\<open>5/0\<close> and of \<open>-7\<close> divided by \<open>2\<close>.\<close>

theorem evaluate_divide_witness:
  "evaluateExpression (BinaryExpression (IntegerLiteral 7 \<lparr>line = 1, column = 1\<rparr>) DIV
       (IntegerLiteral 2 \<lparr>line = 1, column = 3\<rparr>) \<lparr>line = 1, column = 1\<rparr>) = Inr 3 \<and>
   evaluateExpression (BinaryExpression (IntegerLiteral 5 \<lparr>line = 1, column = 1\<rparr>) DIV
       (IntegerLiteral 0 \<lparr>line = 1, column = 3\<rparr>) \<lparr>line = 1, column = 1\<rparr>) =
     Inl ''division by zero'' \<and>
   evaluateExpression (BinaryExpression (IntegerLiteral (- 7) \<lparr>line = 1, column = 1\<rparr>) DIV
       (IntegerLiteral 2 \<lparr>line = 1, column = 3\<rparr>) \<lparr>line = 1, column = 1\<rparr>) = Inr (- 3)"
proof -
  have lit: "\<And>v q. evaluateExpression (IntegerLiteral v q) = Inr v"
    by simp
  have "word_of_int (sint (7 :: int64) sdiv sint (2 :: int64)) = (3 :: int64)"
    by (simp add: signed_divide_int_def)
  moreover have "word_of_int (sint (- 7 :: int64) sdiv sint (2 :: int64)) = (- 3 :: int64)"
    by (simp add: signed_divide_int_def)
  ultimately show ?thesis
    using evaluate_divide [OF lit lit, of 7 _ 2 _ "\<lparr>line = 1, column = 1\<rparr>"]
      evaluate_divide [OF lit lit, of 5 _ 0 _ "\<lparr>line = 1, column = 1\<rparr>"]
      evaluate_divide [OF lit lit, of "- 7" _ 2 _ "\<lparr>line = 1, column = 1\<rparr>"]
    by simp
qed

section \<open>The order of evaluation\<close>

text \<open>
  The recorded evaluator returns the result of \<^verbatim>\<open>evaluateExpression\<close>; when that is a
  number, every node of the tree was called on, in depth-first order; in every case the
  calls are a first part of that order.
\<close>

lemma traced_result: "snd (traced e) = evaluateExpression e"
proof (induction e)
  case (BinaryExpression l op r p)
  then show ?case
    by (cases "traced l"; cases "traced r") (auto split: sum.splits)
qed simp_all

lemma traced_complete: "snd (traced e) = Inr v \<Longrightarrow> fst (traced e) = preorder e"
proof (induction e arbitrary: v)
  case (BinaryExpression l op r p)
  from BinaryExpression.prems obtain a b where "snd (traced l) = Inr a" "snd (traced r) = Inr b"
    by (cases "traced l"; cases "traced r") (auto split: sum.splits)
  with BinaryExpression.IH show ?case
    by (cases "traced l"; cases "traced r") auto
qed simp_all

lemma traced_depth_first: "\<exists>rest. preorder e = fst (traced e) @ rest"
proof (induction e)
  case (BinaryExpression l op r p)
  then obtain restl restr where l: "preorder l = fst (traced l) @ restl"
    and r: "preorder r = fst (traced r) @ restr"
    by blast
  show ?case
  proof (cases "snd (traced l)")
    case (Inl err)
    then have "fst (traced (BinaryExpression l op r p)) = BinaryExpression l op r p # fst (traced l)"
      by (cases "traced l") simp
    with l show ?thesis
      by simp
  next
    case (Inr a)
    then have "fst (traced (BinaryExpression l op r p)) =
        BinaryExpression l op r p # fst (traced l) @ fst (traced r)"
      by (cases "traced l"; cases "traced r") (auto split: sum.splits)
    with traced_complete [OF Inr] r show ?thesis
      by simp
  qed
qed simp_all

text \<open>
  C7. Evaluation goes depth-first, left child before right child: the calls of
  \<^verbatim>\<open>evaluateExpression\<close> are a first part of the depth-first order of the tree.  When the
  left child of a binary node gives an error, that error is the result of the node whatever
  the operator and the right child are, and the calls end with those of the left child:
  none is made on the right child.  When the left child gives a number, the calls on the
  right child follow those on the left, and an error of the right child is the result.
\<close>

theorem evaluate_short_circuits:
  "snd (traced e) = evaluateExpression e \<and>
   (\<exists>rest. preorder e = fst (traced e) @ rest) \<and>
   (evaluateExpression l = Inl err \<longrightarrow>
      traced (BinaryExpression l op r p) = (BinaryExpression l op r p # fst (traced l), Inl err) \<and>
      evaluateExpression (BinaryExpression l op r p) = Inl err) \<and>
   (evaluateExpression l = Inr a \<longrightarrow>
      fst (traced (BinaryExpression l op r p)) =
        BinaryExpression l op r p # fst (traced l) @ fst (traced r) \<and>
      (evaluateExpression r = Inl err \<longrightarrow>
         snd (traced (BinaryExpression l op r p)) = Inl err \<and>
         evaluateExpression (BinaryExpression l op r p) = Inl err))"
proof -
  have failing: "traced (BinaryExpression l op r p) =
      (BinaryExpression l op r p # fst (traced l), Inl err)"
    if "evaluateExpression l = Inl err"
    using that traced_result [of l] by (cases "traced l") simp
  have going: "fst (traced (BinaryExpression l op r p)) =
      BinaryExpression l op r p # fst (traced l) @ fst (traced r)"
    if "evaluateExpression l = Inr a"
    using that traced_result [of l]
    by (cases "traced l"; cases "traced r") (auto split: sum.splits)
  have right: "snd (traced (BinaryExpression l op r p)) = Inl err"
    if "evaluateExpression l = Inr a" "evaluateExpression r = Inl err"
    using that traced_result [of l] traced_result [of r]
    by (cases "traced l"; cases "traced r") auto
  from failing going right traced_result [of e] traced_depth_first [of e] show ?thesis
    by auto
qed

text \<open>
  A left child that divides by zero, beside a right child that would give the error
  "unknown expression type": the four calls are on the node, on its left child and on the
  two literals of the left child.
\<close>

theorem evaluate_short_circuits_witness:
  "traced
     (BinaryExpression
        (BinaryExpression (IntegerLiteral 1 \<lparr>line = 1, column = 1\<rparr>) DIV
           (IntegerLiteral 0 \<lparr>line = 1, column = 3\<rparr>) \<lparr>line = 1, column = 1\<rparr>)
        ADD (OtherExpression \<lparr>line = 1, column = 5\<rparr> ''x'') \<lparr>line = 1, column = 1\<rparr>) =
     ([BinaryExpression
         (BinaryExpression (IntegerLiteral 1 \<lparr>line = 1, column = 1\<rparr>) DIV
            (IntegerLiteral 0 \<lparr>line = 1, column = 3\<rparr>) \<lparr>line = 1, column = 1\<rparr>)
         ADD (OtherExpression \<lparr>line = 1, column = 5\<rparr> ''x'') \<lparr>line = 1, column = 1\<rparr>,
       BinaryExpression (IntegerLiteral 1 \<lparr>line = 1, column = 1\<rparr>) DIV
            (IntegerLiteral 0 \<lparr>line = 1, column = 3\<rparr>) \<lparr>line = 1, column = 1\<rparr>,
       IntegerLiteral 1 \<lparr>line = 1, column = 1\<rparr>,
       IntegerLiteral 0 \<lparr>line = 1, column = 3\<rparr>],
      Inl ''division by zero'') \<and>
   evaluateExpression
     (BinaryExpression
        (BinaryExpression (IntegerLiteral 1 \<lparr>line = 1, column = 1\<rparr>) DIV
           (IntegerLiteral 0 \<lparr>line = 1, column = 3\<rparr>) \<lparr>line = 1, column = 1\<rparr>)
        ADD (OtherExpression \<lparr>line = 1, column = 5\<rparr> ''x'') \<lparr>line = 1, column = 1\<rparr>) =
     Inl ''division by zero''"
proof -
  have left: "evaluateExpression
      (BinaryExpression (IntegerLiteral 1 \<lparr>line = 1, column = 1\<rparr>) DIV
         (IntegerLiteral 0 \<lparr>line = 1, column = 3\<rparr>) \<lparr>line = 1, column = 1\<rparr>) =
      Inl ''division by zero''"
    by simp
  show ?thesis
    using evaluate_short_circuits [of _ _ "''division by zero''" ADD
        "OtherExpression \<lparr>line = 1, column = 5\<rparr> ''x''" "\<lparr>line = 1, column = 1\<rparr>",
        THEN conjunct2, THEN conjunct2, THEN conjunct1, rule_format, OF left]
    by simp
qed

section \<open>The scan of an integer\<close>

lemma takeWhile_run:
  "list_all P ds \<Longrightarrow> rest = [] \<or> \<not> P (hd rest) \<Longrightarrow> takeWhile P (ds @ rest) = ds"
  by (cases rest) (auto simp: list_all_iff)

lemma dropWhile_run:
  "list_all P ds \<Longrightarrow> rest = [] \<or> \<not> P (hd rest) \<Longrightarrow> dropWhile P (ds @ rest) = rest"
  by (cases rest) (auto simp: list_all_iff)

lemma IsDigit_not_operator:
  "IsDigit U r \<Longrightarrow> r \<noteq> 10 \<and> r \<noteq> 43 \<and> r \<noteq> 45 \<and> r \<noteq> 42 \<and> r \<noteq> 47"
  by (auto simp: IsDigit_def MaxLatin1_def)

lemma lexInt_digit_run:
  assumes "pending (reader l) = ds @ rest" and "list_all (IsDigit U) ds"
    and "rest = [] \<or> \<not> IsDigit U (hd rest)"
  shows "lexInt U l =
           Inr (ds, \<lparr>pos = (pos l)\<lparr>column := column (pos l) + int (length ds)\<rparr>,
                     reader = \<lparr>pending = rest, lastRune = None\<rparr>\<rparr>)"
  using assms by (simp add: lexInt_eq takeWhile_run dropWhile_run)

lemma Lex_digit_run:
  assumes "pending (reader l) = ds @ rest" and "list_all (IsDigit U) ds"
    and "rest = [] \<or> \<not> IsDigit U (hd rest)" and "ds \<noteq> []" and "\<not> IsSpace U (hd ds)"
  shows "Lex U l =
           Inr ((INT_tok, ds),
                \<lparr>pos = (pos l)\<lparr>column := column (pos l) + int (length ds)\<rparr>,
                 reader = \<lparr>pending = rest, lastRune = None\<rparr>\<rparr>)"
proof -
  from assms(4) obtain r rs where ds: "ds = r # rs"
    by (cases ds) auto
  with assms have r: "IsDigit U r" and rs: "list_all (IsDigit U) rs"
    by simp_all
  have "pending (reader l) = r # (rs @ rest)"
    using assms(1) ds by simp
  from Lex_Cons [OF this, of U] r assms(5) IsDigit_not_operator [OF r] rs assms(3) show ?thesis
    by (simp add: ds takeWhile_run dropWhile_run)
qed

text \<open>
  C5. Let the runes not yet read be \<open>ds @ rest\<close>, where \<open>ds\<close> is the maximal run of digits
  at the cursor: all of \<open>ds\<close> are digits, and \<open>rest\<close> is empty or starts with a rune that is
  no digit.  Then \<^verbatim>\<open>lexInt\<close> returns the literal \<open>ds\<close> and leaves the cursor at \<open>rest\<close>, the
  column advanced by the length of \<open>ds\<close>.  When the cursor stands at a digit (\<open>ds\<close> is not
  empty; the digit is no space, which no digit of Unicode is), \<^verbatim>\<open>Lex\<close> unreads the digit,
  scans, and returns the token \<^verbatim>\<open>INT\<close> with that literal, in that state.
\<close>

theorem lexInt_maximal_digit_run:
  assumes "pending (reader l) = ds @ rest" and "list_all (IsDigit U) ds"
    and "rest = [] \<or> \<not> IsDigit U (hd rest)"
  shows "lexInt U l =
           Inr (ds, \<lparr>pos = (pos l)\<lparr>column := column (pos l) + int (length ds)\<rparr>,
                     reader = \<lparr>pending = rest, lastRune = None\<rparr>\<rparr>) \<and>
         (ds \<noteq> [] \<and> \<not> IsSpace U (hd ds) \<longrightarrow>
            Lex U l =
              Inr ((INT_tok, ds),
                   \<lparr>pos = (pos l)\<lparr>column := column (pos l) + int (length ds)\<rparr>,
                    reader = \<lparr>pending = rest, lastRune = None\<rparr>\<rparr>))"
  using lexInt_digit_run [OF assms] Lex_digit_run [OF assms] by simp

text \<open>The input \<^verbatim>\<open>123+4\<close>: the run is \<^verbatim>\<open>123\<close>, the cursor is left at \<^verbatim>\<open>+4\<close>.\<close>

theorem lexInt_maximal_digit_run_witness:
  "lexInt latin1 (NewLexer (runes ''123+4'')) =
     Inr (runes ''123'',
          \<lparr>pos = \<lparr>line = 1, column = 3\<rparr>,
           reader = \<lparr>pending = runes ''+4'', lastRune = None\<rparr>\<rparr>) \<and>
   Lex latin1 (NewLexer (runes ''123+4'')) =
     Inr ((INT_tok, runes ''123''),
          \<lparr>pos = \<lparr>line = 1, column = 3\<rparr>,
           reader = \<lparr>pending = runes ''+4'', lastRune = None\<rparr>\<rparr>)"
proof -
  have split: "pending (reader (NewLexer (runes ''123+4''))) = runes ''123'' @ runes ''+4''"
    by (simp add: NewLexer_def runes_def)
  have digits: "list_all (IsDigit latin1) (runes ''123'')"
    by (simp add: runes_def IsDigit_def MaxLatin1_def)
  have stop: "runes ''+4'' = [] \<or> \<not> IsDigit latin1 (hd (runes ''+4''))"
    by (simp add: runes_def IsDigit_def MaxLatin1_def)
  have first: "runes ''123'' \<noteq> [] \<and> \<not> IsSpace latin1 (hd (runes ''123''))"
    by (simp add: runes_def IsSpace_def MaxLatin1_def)
  from lexInt_maximal_digit_run [OF split digits stop] first show ?thesis
    by (simp add: NewLexer_def runes_def)
qed

section \<open>The conversion of a literal by the parser\<close>

lemma decimal_value_simps [simp]:
  "decimal_value n [] = n"
  "decimal_value n (c # cs) = decimal_value (n * 10 + (int c - 48)) cs"
  by (simp_all add: decimal_value_def)

lemma decimal_value_ge:
  "list_all (\<lambda>c. 48 \<le> c \<and> c \<le> 57) cs \<Longrightarrow> 0 \<le> n \<Longrightarrow> n \<le> decimal_value n cs"
proof (induction cs arbitrary: n)
  case Nil
  show ?case by simp
next
  case (Cons c cs)
  then have c: "48 \<le> c" and cs: "list_all (\<lambda>c. 48 \<le> c \<and> c \<le> 57) cs"
    by auto
  have "n \<le> n * 10 + (int c - 48)" using c Cons.prems(2) by simp
  also have "\<dots> \<le> decimal_value (n * 10 + (int c - 48)) cs"
    using c Cons.prems(2) by (intro Cons.IH [OF cs]) simp
  finally show ?case by simp
qed

lemma decimal_value_less:
  "list_all (\<lambda>c. 48 \<le> c \<and> c \<le> 57) cs \<Longrightarrow> 0 \<le> n \<Longrightarrow>
     decimal_value n cs < (n + 1) * 10 ^ length cs"
proof (induction cs arbitrary: n)
  case Nil
  show ?case by simp
next
  case (Cons c cs)
  then have c: "48 \<le> c" "c \<le> 57" and cs: "list_all (\<lambda>c. 48 \<le> c \<and> c \<le> 57) cs"
    by auto
  have "decimal_value (n * 10 + (int c - 48)) cs < (n * 10 + (int c - 48) + 1) * 10 ^ length cs"
    using c Cons.prems(2) by (intro Cons.IH [OF cs]) simp
  also have "\<dots> \<le> ((n + 1) * 10) * 10 ^ length cs"
    using c by (intro mult_right_mono) simp_all
  finally show ?case by (simp add: algebra_simps)
qed

lemma ParseUint_loop_digits:
  "list_all (\<lambda>c. 48 \<le> c \<and> c \<le> 57) cs \<Longrightarrow> 0 \<le> n \<Longrightarrow> n < 2 ^ 64 \<Longrightarrow>
     ParseUint_loop n cs =
       (if decimal_value n cs < 2 ^ 64 then (decimal_value n cs, None)
        else (maxUint64, Some ErrRange))"
proof (induction cs arbitrary: n)
  case Nil
  then show ?case by simp
next
  case (Cons c cs)
  then have c: "48 \<le> c" "c \<le> 57" and cs: "list_all (\<lambda>c. 48 \<le> c \<and> c \<le> 57) cs"
    by auto
  let ?m = "n * 10 + (int c - 48)"
  have m0: "0 \<le> ?m"
    using c Cons.prems(2) by simp
  note ge = decimal_value_ge [OF cs m0]
  show ?case
  proof (cases "maxUint64 div 10 + 1 \<le> n")
    case True
    then have "2 ^ 64 \<le> ?m"
      using c by (simp add: maxUint64_def)
    with ge True c show ?thesis
      by simp
  next
    case False
    then have n10: "n * 10 < 2 ^ 64"
      by (simp add: maxUint64_def)
    have n10': "n * 10 mod 2 ^ 64 = n * 10"
      using n10 Cons.prems(2) by simp
    show ?thesis
    proof (cases "?m < 2 ^ 64")
      case True
      with m0 have "(n * 10 + (int c - 48)) mod 2 ^ 64 = ?m"
        by simp
      with False c True Cons.IH [OF cs m0 True] n10' show ?thesis
        by (simp add: Let_def maxUint64_def)
    next
      case over: False
      have small: "int c - 48 \<le> 9" "0 \<le> int c - 48" using c by simp_all
      have "(n * 10 + (int c - 48)) mod 2 ^ 64 = n * 10 + (int c - 48) - 2 ^ 64"
        using over n10 small by (simp add: mod_pos_geq)
      moreover have "n * 10 + (int c - 48) - 2 ^ 64 < n * 10"
        using small by simp
      ultimately have "(n * 10 mod 2 ^ 64 + (int c - 48)) mod 2 ^ 64 < n * 10 mod 2 ^ 64"
        using n10' by simp
      with False c over ge show ?thesis
        by (simp add: Let_def)
    qed
  qed
qed

lemma Atoi_fast_digits:
  "list_all (\<lambda>c. 48 \<le> c \<and> c \<le> 57) cs \<Longrightarrow>
     Atoi_fast (word_of_int n) cs = Some (word_of_int (decimal_value n cs))"
proof (induction cs arbitrary: n)
  case Nil
  show ?case by simp
next
  case (Cons c cs)
  then have c: "48 \<le> c" "c \<le> 57" and cs: "list_all (\<lambda>c. 48 \<le> c \<and> c \<le> 57) cs"
    by auto
  from c have wrap: "(c + 208) mod 256 = c - 48"
    by (simp add: mod_if)
  have "(word_of_int n :: int64) * 10 + word_of_nat (c - 48) = word_of_int (n * 10 + (int c - 48))"
    using c by simp
  with c wrap Cons.IH [OF cs, of "n * 10 + (int c - 48)"] show ?case
    by (simp add: Let_def)
qed

lemma bytes_ascii: "list_all (\<lambda>r. r < 128) s \<Longrightarrow> bytes s = s"
  by (induction s) (simp_all add: bytes_def encodeRune_def)

lemma Atoi_digits:
  assumes "s \<noteq> []" and "list_all (\<lambda>c. 48 \<le> c \<and> c \<le> 57) s"
  shows "Atoi s =
     (if 2 ^ 63 \<le> decimal_value 0 s then (word_of_int (2 ^ 63 - 1), Some ErrRange)
      else (word_of_int (decimal_value 0 s), None))"
proof -
  from assms obtain c cs where s: "s = c # cs" and c: "48 \<le> c" "c \<le> 57"
    by (cases s) auto
  then have sign: "hd s \<noteq> 45" "hd s \<noteq> 43"
    by simp_all
  show ?thesis
  proof (cases "length s < 19")
    case True
    have "decimal_value 0 s < (0 + 1) * 10 ^ length s"
      by (rule decimal_value_less [OF assms(2)]) simp
    also have "\<dots> \<le> 10 ^ 18"
    proof -
      have "(10::int) ^ length s \<le> 10 ^ 18"
        using True by (intro power_increasing) simp_all
      then show ?thesis by simp
    qed
    finally have "decimal_value 0 s < 2 ^ 63"
      by simp
    moreover have "Atoi_fast 0 s = Some (word_of_int (decimal_value 0 s))"
      using Atoi_fast_digits [OF assms(2), of 0] by simp
    ultimately show ?thesis
      using True assms(1) sign by (simp add: Atoi_def Let_def)
  next
    case False
    have "ParseUint s =
        (if decimal_value 0 s < 2 ^ 64 then (decimal_value 0 s, None)
         else (maxUint64, Some ErrRange))"
      using assms(1) ParseUint_loop_digits [OF assms(2), of 0] by (simp add: ParseUint_def)
    then have "ParseInt s =
        (if 2 ^ 63 \<le> decimal_value 0 s then (word_of_int (2 ^ 63 - 1), Some ErrRange)
         else (word_of_int (decimal_value 0 s), None))"
      using assms(1) sign by (simp add: ParseInt_def Let_def maxUint64_def)
    with False show ?thesis
      by (simp add: Atoi_def)
  qed
qed

text \<open>
  C10. On a token \<^verbatim>\<open>INT\<close> the parser of primaries never aborts: it returns the leaf that
  carries the number \<^verbatim>\<open>strconv.Atoi\<close> gave for the literal and drops the error.  For a
  literal of decimal digits whose value is beyond the largest \<^verbatim>\<open>int\<close>, that number is the
  largest \<^verbatim>\<open>int\<close>, \<open>2 ^ 63 - 1\<close>, and the dropped error is \<^verbatim>\<open>ErrRange\<close>.
\<close>

theorem parsePrimaryExpr_literal:
  assumes "Lex U l = Inr ((INT_tok, lit), l')"
  shows "parsePrimaryExpr U l = Inr (IntegerLiteral (fst (Atoi (bytes lit))) (pos l'), l') \<and>
         (lit \<noteq> [] \<and> list_all (\<lambda>d. 48 \<le> d \<and> d \<le> 57) lit \<and> 2 ^ 63 \<le> decimal_value 0 lit \<longrightarrow>
            Atoi (bytes lit) = (9223372036854775807, Some ErrRange))"
proof -
  have "bytes lit = lit" if "list_all (\<lambda>d. 48 \<le> d \<and> d \<le> 57) lit"
    using that by (intro bytes_ascii) (auto simp: list_all_iff)
  then show ?thesis
    using assms by (auto simp: parsePrimaryExpr_def Atoi_digits)
qed

text \<open>The literal \<^verbatim>\<open>9223372036854775808\<close>, which is \<open>2 ^ 63\<close>.\<close>

theorem parsePrimaryExpr_literal_witness:
  "parsePrimaryExpr latin1 (NewLexer (runes ''9223372036854775808+1'')) =
     Inr (IntegerLiteral 9223372036854775807 \<lparr>line = 1, column = 19\<rparr>,
          \<lparr>pos = \<lparr>line = 1, column = 19\<rparr>,
           reader = \<lparr>pending = runes ''+1'', lastRune = None\<rparr>\<rparr>) \<and>
   Atoi (bytes (runes ''9223372036854775808'')) = (9223372036854775807, Some ErrRange)"
proof -
  have lex: "Lex latin1 (NewLexer (runes ''9223372036854775808+1'')) =
      Inr ((INT_tok, runes ''9223372036854775808''),
           \<lparr>pos = \<lparr>line = 1, column = 19\<rparr>,
            reader = \<lparr>pending = runes ''+1'', lastRune = None\<rparr>\<rparr>)"
    by code_simp
  have big: "runes ''9223372036854775808'' \<noteq> [] \<and>
      list_all (\<lambda>d. 48 \<le> d \<and> d \<le> 57) (runes ''9223372036854775808'') \<and>
      2 ^ 63 \<le> decimal_value 0 (runes ''9223372036854775808'')"
    by (simp add: runes_def)
  from parsePrimaryExpr_literal [OF lex] big show ?thesis
    by simp
qed

text \<open>
  Digits beyond ASCII are scanned as part of a literal too (here U+0663, under tables that
  hold the Arabic-Indic digits), and \<^verbatim>\<open>Atoi\<close> takes their bytes for invalid: alone, or after
  digits that fit a \<^verbatim>\<open>uint64\<close>, the leaf carries 0 (\<^verbatim>\<open>ErrSyntax\<close>); after digits that overflow
  a \<^verbatim>\<open>uint64\<close> the scan has ended before, and the leaf carries the largest \<^verbatim>\<open>int\<close>
  (\<^verbatim>\<open>ErrRange\<close>).
\<close>

lemma literal_beyond_ascii:
  "Atoi (bytes [1635]) = (0, Some ErrSyntax)"
  "Atoi (bytes (runes ''9223372036854775808'' @ [1635])) = (0, Some ErrSyntax)"
  "Atoi (bytes (runes ''99999999999999999999'' @ [1635])) = (9223372036854775807, Some ErrRange)"
  by (simp_all add: Atoi_def ParseInt_def ParseUint_def bytes_def encodeRune_def runes_def
        maxUint64_def Let_def)

lemma arabic_indic_literal:
  "parsePrimaryExpr \<lparr>Digit = (\<lambda>r. 1632 \<le> r \<and> r \<le> 1641), White_Space = (\<lambda>r. False)\<rparr>
     (NewLexer [1635, 59]) =
     Inr (IntegerLiteral 0 \<lparr>line = 1, column = 1\<rparr>,
          \<lparr>pos = \<lparr>line = 1, column = 1\<rparr>, reader = \<lparr>pending = [59], lastRune = None\<rparr>\<rparr>)"
  by code_simp

section \<open>The trees the parser builds\<close>

lemma parsePrimaryExpr_arithmetic:
  "parsePrimaryExpr U l = Inr (e, l') \<Longrightarrow> arithmetic e"
  by (auto simp: parsePrimaryExpr_def split: sum.splits if_splits)

lemma parseMulDiv_loop_arithmetic:
  "parseMulDiv_loop U l left = Inr (e, l') \<Longrightarrow> arithmetic left \<Longrightarrow> arithmetic e"
proof (induction U l left rule: parseMulDiv_loop.induct)
  case (1 U l left)
  note run = "1.prems"(1) [unfolded parseMulDiv_loop.simps [of U l left]]
  show ?case
  proof (cases "Lex U l")
    case (Inl f)
    with run show ?thesis by simp
  next
    case (Inr x)
    then obtain tok lit l1 where lex: "Lex U l = Inr ((tok, lit), l1)"
      by (cases x) auto
    show ?thesis
    proof (cases "tok \<noteq> MUL \<and> tok \<noteq> DIV")
      case True
      with run lex "1.prems"(2) show ?thesis
        by (auto split: sum.splits)
    next
      case False
      with run lex obtain right l2 where
        prim: "parsePrimaryExpr U l1 = Inr (right, l2)" and
        rest: "parseMulDiv_loop U l2 (BinaryExpression left tok right (Pos left)) = Inr (e, l')"
        by (auto split: sum.splits)
      have "arithmetic (BinaryExpression left tok right (Pos left))"
        using False "1.prems"(2) parsePrimaryExpr_arithmetic [OF prim] by auto
      with "1.IH" [OF lex refl refl False prim refl rest] show ?thesis .
    qed
  qed
qed

lemma parseMulDivExpr_arithmetic:
  "parseMulDivExpr U l = Inr (e, l') \<Longrightarrow> arithmetic e"
  by (auto simp: parseMulDivExpr_def split: sum.splits
        dest: parsePrimaryExpr_arithmetic parseMulDiv_loop_arithmetic)

lemma parseAddSub_loop_arithmetic:
  "parseAddSub_loop U l left = Inr (e, l') \<Longrightarrow> arithmetic left \<Longrightarrow> arithmetic e"
proof (induction U l left rule: parseAddSub_loop.induct)
  case (1 U l left)
  note run = "1.prems"(1) [unfolded parseAddSub_loop.simps [of U l left]]
  show ?case
  proof (cases "Lex U l")
    case (Inl f)
    with run show ?thesis by simp
  next
    case (Inr x)
    then obtain tok lit l1 where lex: "Lex U l = Inr ((tok, lit), l1)"
      by (cases x) auto
    show ?thesis
    proof (cases "tok \<noteq> ADD \<and> tok \<noteq> SUB")
      case True
      with run lex "1.prems"(2) show ?thesis
        by (auto split: sum.splits)
    next
      case False
      with run lex obtain right l2 where
        prim: "parseMulDivExpr U l1 = Inr (right, l2)" and
        rest: "parseAddSub_loop U l2 (BinaryExpression left tok right (Pos left)) = Inr (e, l')"
        by (auto split: sum.splits)
      have "arithmetic (BinaryExpression left tok right (Pos left))"
        using False "1.prems"(2) parseMulDivExpr_arithmetic [OF prim] by auto
      with "1.IH" [OF lex refl refl False prim refl rest] show ?thesis .
    qed
  qed
qed

lemma arithmetic_evaluates:
  "arithmetic e \<Longrightarrow>
     (\<exists>v. evaluateExpression e = Inr v) \<or> evaluateExpression e = Inl ''division by zero''"
  by (induction e) (auto split: sum.splits Token.splits)

text \<open>
  C9. Every tree the parser returns is made of binary nodes whose operator is \<open>ADD\<close>,
  \<open>SUB\<close>, \<open>MUL\<close> or \<open>DIV\<close> and of integer literals; on such a tree the evaluator gives
  neither the error "unknown operator" nor the error "unknown expression type".
\<close>

theorem parser_builds_arithmetic:
  assumes "parseExpression U l = Inr (e, l')"
  shows "arithmetic e \<and>
         evaluateExpression e \<noteq> Inl ''unknown operator'' \<and>
         evaluateExpression e \<noteq> Inl ''unknown expression type''"
proof -
  from assms have "arithmetic e"
    by (auto simp: parseExpression_def parseAddSubExpr_def split: sum.splits
          dest: parseMulDivExpr_arithmetic parseAddSub_loop_arithmetic)
  with arithmetic_evaluates [of e] show ?thesis
    by auto
qed

text \<open>The input \<^verbatim>\<open>2*3+4;\<close>, on which the parser returns.\<close>

theorem parser_builds_arithmetic_witness:
  "parseExpression latin1 (NewLexer (runes ''2*3+4;'')) =
     Inr (BinaryExpression
            (BinaryExpression (IntegerLiteral 2 \<lparr>line = 1, column = 1\<rparr>) MUL
               (IntegerLiteral 3 \<lparr>line = 1, column = 3\<rparr>) \<lparr>line = 1, column = 1\<rparr>)
            ADD (IntegerLiteral 4 \<lparr>line = 1, column = 5\<rparr>) \<lparr>line = 1, column = 1\<rparr>,
          \<lparr>pos = \<lparr>line = 1, column = 5\<rparr>,
           reader = \<lparr>pending = runes '';'', lastRune = None\<rparr>\<rparr>) \<and>
   arithmetic
     (BinaryExpression
        (BinaryExpression (IntegerLiteral 2 \<lparr>line = 1, column = 1\<rparr>) MUL
           (IntegerLiteral 3 \<lparr>line = 1, column = 3\<rparr>) \<lparr>line = 1, column = 1\<rparr>)
        ADD (IntegerLiteral 4 \<lparr>line = 1, column = 5\<rparr>) \<lparr>line = 1, column = 1\<rparr>)"
proof -
  have run: "parseExpression latin1 (NewLexer (runes ''2*3+4;'')) =
     Inr (BinaryExpression
            (BinaryExpression (IntegerLiteral 2 \<lparr>line = 1, column = 1\<rparr>) MUL
               (IntegerLiteral 3 \<lparr>line = 1, column = 3\<rparr>) \<lparr>line = 1, column = 1\<rparr>)
            ADD (IntegerLiteral 4 \<lparr>line = 1, column = 5\<rparr>) \<lparr>line = 1, column = 1\<rparr>,
          \<lparr>pos = \<lparr>line = 1, column = 5\<rparr>,
           reader = \<lparr>pending = runes '';'', lastRune = None\<rparr>\<rparr>)"
    by code_simp
  from parser_builds_arithmetic [OF run] run show ?thesis
    by simp
qed

section \<open>Where the parser returns\<close>

text \<open>
  Both loops of the parser end with \<^verbatim>\<open>l.backup()\<close> on the token that does not continue
  them.  \<^verbatim>\<open>UnreadRune\<close> succeeds only straight after a \<^verbatim>\<open>ReadRune\<close> that returned a rune:
  after an operator or an illegal rune, not after the end of input (the last \<^verbatim>\<open>ReadRune\<close>
  returned \<^verbatim>\<open>io.EOF\<close>) and not after a number (\<^verbatim>\<open>lexInt\<close> ended with \<^verbatim>\<open>io.EOF\<close> or with
  its own \<^verbatim>\<open>UnreadRune\<close>).  So the loop of \<^verbatim>\<open>parseMulDivExpr\<close> returns only in front of
  \<^verbatim>\<open>+\<close>, \<^verbatim>\<open>-\<close> or an illegal rune, and \<^verbatim>\<open>parseAddSubExpr\<close> only in front of an illegal rune.
\<close>

lemma parsePrimaryExpr_pending_subset:
  "parsePrimaryExpr U l = Inr (e, l') \<Longrightarrow>
     set (pending (reader l')) \<subseteq> set (pending (reader l))"
  by (auto simp: parsePrimaryExpr_def split: sum.splits prod.splits if_splits
        dest!: Lex_pending_subset)

lemma parseMulDiv_loop_stops:
  "parseMulDiv_loop U l left = Inr (e, l') \<Longrightarrow>
     \<exists>r rs. pending (reader l') = r # rs \<and> (r = 43 \<or> r = 45 \<or> \<not> legal U r) \<and>
       set (r # rs) \<subseteq> set (pending (reader l))"
proof (induction U l left rule: parseMulDiv_loop.induct)
  case (1 U l left)
  note run = "1.prems" [unfolded parseMulDiv_loop.simps [of U l left]]
  show ?case
  proof (cases "Lex U l")
    case (Inl f)
    with run show ?thesis by simp
  next
    case (Inr x)
    then obtain tok lit l1 where lex: "Lex U l = Inr ((tok, lit), l1)"
      by (cases x) auto
    show ?thesis
    proof (cases "tok \<noteq> MUL \<and> tok \<noteq> DIV")
      case True
      with run lex have undo: "backup l1 = Inr l'"
        by (auto split: sum.splits)
      from Lex_unread [OF lex undo] obtain r ws where
        r: "pending (reader l') = r # pending (reader l1)" "lastRune (reader l1) = Some r"
        and ws: "pending (reader l) = ws @ pending (reader l')"
        by auto
      from Lex_lastRune [OF lex] r(2) True have "r = 43 \<or> r = 45 \<or> \<not> legal U r"
        by (cases tok) (auto simp: legal_def)
      with r(1) ws show ?thesis
        by auto
    next
      case False
      with run lex obtain right l2 where
        prim: "parsePrimaryExpr U l1 = Inr (right, l2)" and
        rest: "parseMulDiv_loop U l2 (BinaryExpression left tok right (Pos left)) = Inr (e, l')"
        by (auto split: sum.splits)
      from "1.IH" [OF lex refl refl False prim refl rest] obtain r rs where
        "pending (reader l') = r # rs" "r = 43 \<or> r = 45 \<or> \<not> legal U r"
        "set (r # rs) \<subseteq> set (pending (reader l2))"
        by blast
      with Lex_pending_subset [OF lex] parsePrimaryExpr_pending_subset [OF prim]
      show ?thesis
        by blast
    qed
  qed
qed

lemma parseMulDivExpr_stops:
  assumes "parseMulDivExpr U l = Inr (e, l')"
  shows "\<exists>r rs. pending (reader l') = r # rs \<and> (r = 43 \<or> r = 45 \<or> \<not> legal U r) \<and>
       set (r # rs) \<subseteq> set (pending (reader l))"
proof -
  from assms obtain left l1 where prim: "parsePrimaryExpr U l = Inr (left, l1)"
    and loop: "parseMulDiv_loop U l1 left = Inr (e, l')"
    by (auto simp: parseMulDivExpr_def split: sum.splits)
  from parseMulDiv_loop_stops [OF loop] parsePrimaryExpr_pending_subset [OF prim]
  show ?thesis
    by blast
qed

lemma parseAddSub_loop_stops:
  "parseAddSub_loop U l left = Inr (e, l') \<Longrightarrow> pending (reader l) = r0 # rs0 \<Longrightarrow>
   r0 = 43 \<or> r0 = 45 \<or> \<not> legal U r0 \<Longrightarrow>
     \<exists>r rs. pending (reader l') = r # rs \<and> \<not> legal U r \<and>
       set (r # rs) \<subseteq> set (pending (reader l))"
proof (induction U l left arbitrary: r0 rs0 rule: parseAddSub_loop.induct)
  case (1 U l left)
  note run = "1.prems"(1) [unfolded parseAddSub_loop.simps [of U l left]]
  let ?l1 = "consumed l \<lparr>pending = rs0, lastRune = Some r0\<rparr>"
  note lex = Lex_Cons [OF "1.prems"(2), of U]
  show ?case
  proof (cases "r0 = 43 \<or> r0 = 45")
    case False
    with "1.prems"(3) have bad: "\<not> legal U r0"
      by simp
    then have "Lex U l = Inr ((ILLEGAL, [r0]), ?l1)"
      unfolding lex by (simp add: legal_def)
    with run have "l' = l\<lparr>reader := \<lparr>pending = r0 # rs0, lastRune = None\<rparr>\<rparr>"
      by (simp add: backup_consumed)
    with bad "1.prems"(2) show ?thesis
      by auto
  next
    case True
    then obtain tok where tok: "tok = ADD \<or> tok = SUB" and
      lexed: "Lex U l = Inr ((tok, [r0]), ?l1)"
      unfolding lex by auto
    with run obtain right l2 where
      prim: "parseMulDivExpr U ?l1 = Inr (right, l2)" and
      rest: "parseAddSub_loop U l2 (BinaryExpression left tok right (Pos left)) = Inr (e, l')"
      by (auto split: sum.splits)
    from parseMulDivExpr_stops [OF prim] obtain r1 rs1 where
      nxt: "pending (reader l2) = r1 # rs1" "r1 = 43 \<or> r1 = 45 \<or> \<not> legal U r1"
      "set (r1 # rs1) \<subseteq> set rs0"
      by (auto simp: consumed_def)
    from tok have cont: "\<not> (tok \<noteq> ADD \<and> tok \<noteq> SUB)"
      by auto
    from "1.IH" [OF lexed refl refl cont prim refl rest nxt(1) nxt(2)] obtain r rs where
      "pending (reader l') = r # rs" "\<not> legal U r" "set (r # rs) \<subseteq> set (pending (reader l2))"
      by blast
    with nxt "1.prems"(2) show ?thesis
      by auto
  qed
qed

lemma parser_returns_only_before_illegal:
  assumes "parseExpression U (NewLexer input) = Inr (e, l')"
  shows "\<exists>r rs. pending (reader l') = r # rs \<and> \<not> legal U r \<and> set (r # rs) \<subseteq> set input"
proof -
  from assms obtain left l1 where first: "parseMulDivExpr U (NewLexer input) = Inr (left, l1)"
    and loop: "parseAddSub_loop U l1 left = Inr (e, l')"
    by (auto simp: parseExpression_def parseAddSubExpr_def split: sum.splits)
  from parseMulDivExpr_stops [OF first] obtain r0 rs0 where
    start: "pending (reader l1) = r0 # rs0" "r0 = 43 \<or> r0 = 45 \<or> \<not> legal U r0"
    "set (r0 # rs0) \<subseteq> set input"
    by (auto simp: NewLexer_def)
  from parseAddSub_loop_stops [OF loop start(1) start(2)] start show ?thesis
    by auto
qed

text \<open>
  C1 (the code departs from it).  The claim: on a well-formed expression followed by the end
  of input the loops push the token \<^verbatim>\<open>EOF\<close> back and return, and the program prints two
  lines.  The code: on every input made only of digits, spaces, newlines and operators, so
  on every well-formed expression, the program aborts and prints no line.
\<close>

theorem no_output_at_end_of_input:
  assumes "list_all (legal U) input"
  shows "\<exists>f. main U input = ([], Some f)"
proof (cases "parseExpression U (NewLexer input)")
  case (Inl f)
  then show ?thesis
    by (simp add: main_def)
next
  case (Inr x)
  then obtain e l' where "parseExpression U (NewLexer input) = Inr (e, l')"
    by (cases x) auto
  from parser_returns_only_before_illegal [OF this] assms show ?thesis
    by (auto simp: list_all_iff)
qed

text \<open>The input \<^verbatim>\<open>1+2\<close>: the abort is that of \<^verbatim>\<open>backup\<close>, "bufio: invalid use of UnreadRune".\<close>

theorem no_output_at_end_of_input_witness:
  "list_all (legal latin1) (runes ''1+2'') \<and>
   main latin1 (runes ''1+2'') = ([], Some ErrInvalidUnreadRune)"
proof -
  have ok: "list_all (legal latin1) (runes ''1+2'')"
    by (simp add: runes_def legal_def IsDigit_def IsSpace_def MaxLatin1_def)
  have "parseExpression latin1 (NewLexer (runes ''1+2'')) = Inl ErrInvalidUnreadRune"
    by code_simp
  with no_output_at_end_of_input [OF ok] ok show ?thesis
    by (simp add: main_def)
qed

section \<open>Illegal runes\<close>

text \<open>
  C2 (as stated it fails).  The claim: every input with an illegal rune, such as \<^verbatim>\<open>3&4\<close>,
  ends in the failure "unexpected token" and never in a partial parse.  On \<^verbatim>\<open>3&4\<close> the
  program prints the rendering \<^verbatim>\<open>3\<close> and the result \<^verbatim>\<open>3\<close> and ends normally.
\<close>

theorem illegal_rune_silent_counterexample:
  "main latin1 (runes ''3&4'') = ([''3'', ''3''], None)"
  by code_simp

text \<open>
  C2, amended.  Whenever the next token is \<^verbatim>\<open>ILLEGAL\<close>: the parser of primaries aborts with
  "Unexpected token: ILLEGAL" (the message names the kind of the token), and each of the two
  loops pushes the illegal rune back and returns the expression built so far, unchanged.
  So an illegal rune fails the program where an operand is expected, and ends the parse
  silently where an operator is looked for.
\<close>

theorem illegal_token:
  assumes "Lex U l = Inr ((ILLEGAL, lit), l1)"
  shows "parsePrimaryExpr U l = Inl (UnexpectedToken ILLEGAL) \<and>
         (\<exists>l2. parseMulDiv_loop U l left = Inr (left, l2) \<and>
            pending (reader l2) = lit @ pending (reader l1)) \<and>
         (\<exists>l2. parseAddSub_loop U l left = Inr (left, l2) \<and>
            pending (reader l2) = lit @ pending (reader l1))"
proof -
  from Lex_lastRune [OF assms] obtain r where r: "lastRune (reader l1) = Some r" "lit = [r]"
    by (cases "lastRune (reader l1)") auto
  then obtain l2 where l2: "backup l1 = Inr l2" "pending (reader l2) = lit @ pending (reader l1)"
    by (auto simp: backup_def UnreadRune_def)
  have "parsePrimaryExpr U l = Inl (UnexpectedToken ILLEGAL)"
    using assms by (simp add: parsePrimaryExpr_def)
  moreover have "parseMulDiv_loop U l left = Inr (left, l2)"
    using assms l2(1) by (subst parseMulDiv_loop.simps) simp
  moreover have "parseAddSub_loop U l left = Inr (left, l2)"
    using assms l2(1) by (subst parseAddSub_loop.simps) simp
  ultimately show ?thesis
    using l2(2) by blast
qed

text \<open>The lexer in front of \<^verbatim>\<open>&4\<close>.\<close>

theorem illegal_token_witness:
  "parsePrimaryExpr latin1 (NewLexer (runes ''&4'')) = Inl (UnexpectedToken ILLEGAL) \<and>
   (\<exists>l2. parseMulDiv_loop latin1 (NewLexer (runes ''&4'')) (IntegerLiteral 3 \<lparr>line = 1, column = 1\<rparr>) =
       Inr (IntegerLiteral 3 \<lparr>line = 1, column = 1\<rparr>, l2) \<and> pending (reader l2) = runes ''&4'') \<and>
   (\<exists>l2. parseAddSub_loop latin1 (NewLexer (runes ''&4'')) (IntegerLiteral 3 \<lparr>line = 1, column = 1\<rparr>) =
       Inr (IntegerLiteral 3 \<lparr>line = 1, column = 1\<rparr>, l2) \<and> pending (reader l2) = runes ''&4'')"
proof -
  have lex: "Lex latin1 (NewLexer (runes ''&4'')) =
      Inr ((ILLEGAL, runes ''&''),
           \<lparr>pos = \<lparr>line = 1, column = 1\<rparr>,
            reader = \<lparr>pending = runes ''4'', lastRune = Some 38\<rparr>\<rparr>)"
    by code_simp
  from illegal_token [OF lex, of "IntegerLiteral 3 \<lparr>line = 1, column = 1\<rparr>"] show ?thesis
    by (simp add: runes_def)
qed

lemma illegal_rune_examples:
  "main latin1 (runes ''&4'') = ([], Some (UnexpectedToken ILLEGAL))"
  "main latin1 (runes ''3+&4'') = ([], Some (UnexpectedToken ILLEGAL))"
  "main latin1 (runes ''3*&4'') = ([], Some (UnexpectedToken ILLEGAL))"
  "main latin1 (runes ''3+4&'') = ([''(3 + 4)'', ''7''], None)"
  by code_simp+

section \<open>Precedence and associativity\<close>

text \<open>
  Whenever the parser returns, its tree is a sum of products: no node with \<open>ADD\<close> or \<open>SUB\<close>
  stands below a node with \<open>MUL\<close> or \<open>DIV\<close> (precedence), and each loop puts the expression
  built so far on the left of the new node (left associativity).
\<close>

lemma product_sum: "product e \<Longrightarrow> sum_of_products e"
  by (cases e) auto

lemma parsePrimaryExpr_literal_leaf:
  "parsePrimaryExpr U l = Inr (e, l') \<Longrightarrow> \<exists>v p. e = IntegerLiteral v p"
  by (auto simp: parsePrimaryExpr_def split: sum.splits if_splits)

lemma parseMulDiv_loop_product:
  "parseMulDiv_loop U l left = Inr (e, l') \<Longrightarrow> product left \<Longrightarrow> product e"
proof (induction U l left rule: parseMulDiv_loop.induct)
  case (1 U l left)
  note run = "1.prems"(1) [unfolded parseMulDiv_loop.simps [of U l left]]
  show ?case
  proof (cases "Lex U l")
    case (Inl f)
    with run show ?thesis by simp
  next
    case (Inr x)
    then obtain tok lit l1 where lex: "Lex U l = Inr ((tok, lit), l1)"
      by (cases x) auto
    show ?thesis
    proof (cases "tok \<noteq> MUL \<and> tok \<noteq> DIV")
      case True
      with run lex "1.prems"(2) show ?thesis
        by (auto split: sum.splits)
    next
      case False
      with run lex obtain right l2 where
        prim: "parsePrimaryExpr U l1 = Inr (right, l2)" and
        rest: "parseMulDiv_loop U l2 (BinaryExpression left tok right (Pos left)) = Inr (e, l')"
        by (auto split: sum.splits)
      have "product (BinaryExpression left tok right (Pos left))"
        using False "1.prems"(2) parsePrimaryExpr_literal_leaf [OF prim] by auto
      with "1.IH" [OF lex refl refl False prim refl rest] show ?thesis .
    qed
  qed
qed

lemma parseMulDivExpr_product:
  assumes "parseMulDivExpr U l = Inr (e, l')"
  shows "product e"
proof -
  from assms obtain left l1 where prim: "parsePrimaryExpr U l = Inr (left, l1)"
    and loop: "parseMulDiv_loop U l1 left = Inr (e, l')"
    by (auto simp: parseMulDivExpr_def split: sum.splits)
  from parsePrimaryExpr_literal_leaf [OF prim] have "product left"
    by auto
  with loop show ?thesis
    by (rule parseMulDiv_loop_product)
qed

lemma parseAddSub_loop_sum:
  "parseAddSub_loop U l left = Inr (e, l') \<Longrightarrow> sum_of_products left \<Longrightarrow> sum_of_products e"
proof (induction U l left rule: parseAddSub_loop.induct)
  case (1 U l left)
  note run = "1.prems"(1) [unfolded parseAddSub_loop.simps [of U l left]]
  show ?case
  proof (cases "Lex U l")
    case (Inl f)
    with run show ?thesis by simp
  next
    case (Inr x)
    then obtain tok lit l1 where lex: "Lex U l = Inr ((tok, lit), l1)"
      by (cases x) auto
    show ?thesis
    proof (cases "tok \<noteq> ADD \<and> tok \<noteq> SUB")
      case True
      with run lex "1.prems"(2) show ?thesis
        by (auto split: sum.splits)
    next
      case False
      with run lex obtain right l2 where
        prim: "parseMulDivExpr U l1 = Inr (right, l2)" and
        rest: "parseAddSub_loop U l2 (BinaryExpression left tok right (Pos left)) = Inr (e, l')"
        by (auto split: sum.splits)
      have "sum_of_products (BinaryExpression left tok right (Pos left))"
        using False "1.prems"(2) parseMulDivExpr_product [OF prim] by auto
      with "1.IH" [OF lex refl refl False prim refl rest] show ?thesis .
    qed
  qed
qed

lemma parseExpression_sum_of_products:
  assumes "parseExpression U l = Inr (e, l')"
  shows "sum_of_products e"
proof -
  from assms obtain left l1 where first: "parseMulDivExpr U l = Inr (left, l1)"
    and loop: "parseAddSub_loop U l1 left = Inr (e, l')"
    by (auto simp: parseExpression_def parseAddSubExpr_def split: sum.splits)
  from parseMulDivExpr_product [OF first] have "sum_of_products left"
    by (rule product_sum)
  with loop show ?thesis
    by (rule parseAddSub_loop_sum)
qed

text \<open>
  C3 (the code departs from it).  The claim: \<^verbatim>\<open>2+3*4\<close> parses to \<^verbatim>\<open>(2 + (3 * 4))\<close> and
  evaluates to 14, \<^verbatim>\<open>2*3+4\<close> to \<^verbatim>\<open>((2 * 3) + 4)\<close> and 10.  The code: on both inputs the
  program aborts in \<^verbatim>\<open>backup\<close> at the end of the input and prints nothing.
\<close>

theorem precedence_aborts:
  "main latin1 (runes ''2+3*4'') = ([], Some ErrInvalidUnreadRune) \<and>
   main latin1 (runes ''2*3+4'') = ([], Some ErrInvalidUnreadRune)"
  by code_simp

text \<open>Followed by a rune that is no token, the two inputs give the trees of the claim.\<close>

lemma precedence_before_illegal:
  "main latin1 (runes ''2+3*4;'') = ([''(2 + (3 * 4))'', ''14''], None)"
  "main latin1 (runes ''2*3+4;'') = ([''((2 * 3) + 4)'', ''10''], None)"
  by code_simp+

text \<open>
  C4 (the code departs from it).  The claim: \<^verbatim>\<open>1-2-3\<close> parses to \<^verbatim>\<open>((1 - 2) - 3)\<close>.  The code:
  the program aborts in \<^verbatim>\<open>backup\<close> at the end of the input and prints nothing.
\<close>

theorem left_associative_aborts:
  "main latin1 (runes ''1-2-3'') = ([], Some ErrInvalidUnreadRune)"
  by code_simp

text \<open>Followed by a rune that is no token, the input gives the tree of the claim.\<close>

lemma left_associative_before_illegal:
  "main latin1 (runes ''1-2-3;'') = ([''((1 - 2) - 3)'', ''-4''], None)"
  by code_simp

section \<open>Whitespace between tokens\<close>

text \<open>The runes \<^verbatim>\<open>Lex\<close> passes over: the newline and the spaces.\<close>

definition skipped :: "unicode \<Rightarrow> rune \<Rightarrow> bool" where
  "skipped U r = (r = 10 \<or> IsSpace U r)"

text \<open>The token \<^verbatim>\<open>Lex\<close> makes of a rune that is neither passed over nor a digit.\<close>

definition single_token :: "rune \<Rightarrow> Token" where
  "single_token r =
     (if r = 43 then ADD else if r = 45 then SUB else if r = 42 then MUL
      else if r = 47 then DIV else ILLEGAL)"

text \<open>
  Two inputs that hold the same tokens and differ only in the whitespace in front of each:
  both are at their end but for whitespace; or both go on, after whitespace, with the same
  rune that is a token by itself; or both go on, after whitespace, with the same maximal run
  of digits.
\<close>

inductive same_tokens :: "unicode \<Rightarrow> rune list \<Rightarrow> rune list \<Rightarrow> bool" for U where
  at_end:
    "list_all (skipped U) ws \<Longrightarrow> list_all (skipped U) ws' \<Longrightarrow> same_tokens U ws ws'"
| single:
    "list_all (skipped U) ws \<Longrightarrow> list_all (skipped U) ws' \<Longrightarrow>
     \<not> skipped U r \<Longrightarrow> \<not> IsDigit U r \<Longrightarrow> same_tokens U s s' \<Longrightarrow>
     same_tokens U (ws @ r # s) (ws' @ r # s')"
| number:
    "list_all (skipped U) ws \<Longrightarrow> list_all (skipped U) ws' \<Longrightarrow>
     ds \<noteq> [] \<Longrightarrow> \<not> skipped U (hd ds) \<Longrightarrow> list_all (IsDigit U) ds \<Longrightarrow>
     s = [] \<or> \<not> IsDigit U (hd s) \<Longrightarrow> s' = [] \<or> \<not> IsDigit U (hd s') \<Longrightarrow>
     same_tokens U s s' \<Longrightarrow>
     same_tokens U (ws @ ds @ s) (ws' @ ds @ s')"

text \<open>A tree with every position set to line 0, column 0.\<close>

fun unpositioned :: "Expression \<Rightarrow> Expression" where
  "unpositioned (BinaryExpression l op r p) =
     BinaryExpression (unpositioned l) op (unpositioned r) \<lparr>line = 0, column = 0\<rparr>"
| "unpositioned (IntegerLiteral v p) = IntegerLiteral v \<lparr>line = 0, column = 0\<rparr>"
| "unpositioned (OtherExpression p s) = OtherExpression \<lparr>line = 0, column = 0\<rparr> s"

text \<open>
  Two results of a parsing function that differ at most in positions: the same abort, or
  trees that are equal once their positions are removed, with the same tokens left to read.
\<close>

definition alike ::
  "unicode \<Rightarrow> fatal + (Expression \<times> Lexer) \<Rightarrow> fatal + (Expression \<times> Lexer) \<Rightarrow> bool" where
  "alike U x y =
     (case x of
        Inl f \<Rightarrow> y = Inl f
      | Inr (e, l) \<Rightarrow>
          (case y of
             Inl f \<Rightarrow> False
           | Inr (e', l') \<Rightarrow>
               unpositioned e = unpositioned e' \<and>
               same_tokens U (pending (reader l)) (pending (reader l'))))"

lemma IsSpace_not_operator:
  "IsSpace U r \<Longrightarrow> r \<noteq> 43 \<and> r \<noteq> 45 \<and> r \<noteq> 42 \<and> r \<noteq> 47"
  by (auto simp: IsSpace_def MaxLatin1_def split: if_splits)

lemma Lex_skip:
  "list_all (skipped U) ws \<Longrightarrow> pending (reader l) = ws @ rest \<Longrightarrow>
     \<exists>p x. Lex U l = Lex U \<lparr>pos = p, reader = \<lparr>pending = rest, lastRune = x\<rparr>\<rparr>"
proof (induction ws arbitrary: l)
  case Nil
  then have "l = \<lparr>pos = pos l, reader = \<lparr>pending = rest, lastRune = lastRune (reader l)\<rparr>\<rparr>"
    by simp
  then show ?case
    by metis
next
  case (Cons w ws)
  let ?l1 = "consumed l \<lparr>pending = ws @ rest, lastRune = Some w\<rparr>"
  from Cons.prems have w: "skipped U w" and ws: "list_all (skipped U) ws"
    and pend: "pending (reader l) = w # (ws @ rest)"
    by simp_all
  note eq = Lex_Cons [OF pend, of U]
  show ?case
  proof (cases "w = 10")
    case True
    then have "Lex U l = Lex U (resetPosition ?l1)"
      unfolding eq by simp
    moreover have "pending (reader (resetPosition ?l1)) = ws @ rest"
      by (simp add: resetPosition_def consumed_def)
    ultimately show ?thesis
      using Cons.IH [OF ws] by simp
  next
    case False
    with w have "IsSpace U w"
      by (simp add: skipped_def)
    with False IsSpace_not_operator [of U w] have "Lex U l = Lex U ?l1"
      unfolding eq by simp
    moreover have "pending (reader ?l1) = ws @ rest"
      by (simp add: consumed_def)
    ultimately show ?thesis
      using Cons.IH [OF ws] by simp
  qed
qed

lemma Lex_at_end:
  assumes "list_all (skipped U) ws" and "pending (reader l) = ws"
  shows "\<exists>l1. Lex U l = Inr ((EOF, []), l1) \<and> reader l1 = \<lparr>pending = [], lastRune = None\<rparr>"
proof -
  from Lex_skip [OF assms(1), of l "[]"] assms(2) obtain p x where
    "Lex U l = Lex U \<lparr>pos = p, reader = \<lparr>pending = [], lastRune = x\<rparr>\<rparr>"
    by auto
  then show ?thesis
    by (simp add: Lex_Nil)
qed

lemma Lex_at_single:
  assumes "list_all (skipped U) ws" and "pending (reader l) = ws @ r # s"
    and "\<not> skipped U r" and "\<not> IsDigit U r"
  shows "\<exists>l1. Lex U l = Inr ((single_token r, [r]), l1) \<and>
           reader l1 = \<lparr>pending = s, lastRune = Some r\<rparr>"
proof -
  from Lex_skip [OF assms(1,2)] obtain p x where
    "Lex U l = Lex U \<lparr>pos = p, reader = \<lparr>pending = r # s, lastRune = x\<rparr>\<rparr>"
    by auto
  with assms(3,4) show ?thesis
    by (simp add: Lex_Cons skipped_def single_token_def consumed_def)
qed

lemma Lex_at_number:
  assumes "list_all (skipped U) ws" and "pending (reader l) = ws @ ds @ s"
    and "ds \<noteq> []" and "\<not> skipped U (hd ds)" and "list_all (IsDigit U) ds"
    and "s = [] \<or> \<not> IsDigit U (hd s)"
  shows "\<exists>l1. Lex U l = Inr ((INT_tok, ds), l1) \<and>
           reader l1 = \<lparr>pending = s, lastRune = None\<rparr>"
proof -
  from Lex_skip [OF assms(1,2)] obtain p x where
    skip: "Lex U l = Lex U \<lparr>pos = p, reader = \<lparr>pending = ds @ s, lastRune = x\<rparr>\<rparr>"
    by auto
  have "pending (reader \<lparr>pos = p, reader = \<lparr>pending = ds @ s, lastRune = x\<rparr>\<rparr>) = ds @ s"
    by simp
  from Lex_digit_run [OF this assms(5,6,3)] assms(4) skip show ?thesis
    by (simp add: skipped_def)
qed

lemma Lex_same_tokens:
  assumes "same_tokens U (pending (reader l)) (pending (reader l'))"
  shows "\<exists>t l1 l1'. Lex U l = Inr (t, l1) \<and> Lex U l' = Inr (t, l1') \<and>
           same_tokens U (pending (reader l1)) (pending (reader l1')) \<and>
           lastRune (reader l1) = lastRune (reader l1') \<and>
           (\<forall>r. lastRune (reader l1) = Some r \<longrightarrow> \<not> skipped U r \<and> \<not> IsDigit U r)"
  using assms
proof cases
  case at_end
  from Lex_at_end [OF at_end(1) refl] Lex_at_end [OF at_end(2) refl]
  obtain l1 l1' where "Lex U l = Inr ((EOF, []), l1)" "reader l1 = \<lparr>pending = [], lastRune = None\<rparr>"
    "Lex U l' = Inr ((EOF, []), l1')" "reader l1' = \<lparr>pending = [], lastRune = None\<rparr>"
    by blast
  moreover have "same_tokens U [] []"
    by (rule same_tokens.at_end) simp_all
  ultimately show ?thesis
    by simp
next
  case (single ws ws' r s s')
  from Lex_at_single [OF single(3) single(1) single(5,6)]
    Lex_at_single [OF single(4) single(2) single(5,6)]
  obtain l1 l1' where "Lex U l = Inr ((single_token r, [r]), l1)"
    "reader l1 = \<lparr>pending = s, lastRune = Some r\<rparr>"
    "Lex U l' = Inr ((single_token r, [r]), l1')"
    "reader l1' = \<lparr>pending = s', lastRune = Some r\<rparr>"
    by blast
  with single(5,6,7) show ?thesis
    by simp
next
  case (number ws ws' ds s s')
  from Lex_at_number [OF number(3) number(1) number(5,6,7,8)]
    Lex_at_number [OF number(4) number(2) number(5,6,7,9)]
  obtain l1 l1' where "Lex U l = Inr ((INT_tok, ds), l1)"
    "reader l1 = \<lparr>pending = s, lastRune = None\<rparr>"
    "Lex U l' = Inr ((INT_tok, ds), l1')"
    "reader l1' = \<lparr>pending = s', lastRune = None\<rparr>"
    by blast
  with number(10) show ?thesis
    by simp
qed

lemma backup_same_tokens:
  assumes "same_tokens U (pending (reader l)) (pending (reader l'))"
    and "lastRune (reader l) = lastRune (reader l')"
    and "\<forall>r. lastRune (reader l) = Some r \<longrightarrow> \<not> skipped U r \<and> \<not> IsDigit U r"
  shows "(backup l = Inl ErrInvalidUnreadRune \<and> backup l' = Inl ErrInvalidUnreadRune) \<or>
         (\<exists>l2 l2'. backup l = Inr l2 \<and> backup l' = Inr l2' \<and>
            same_tokens U (pending (reader l2)) (pending (reader l2')))"
proof (cases "lastRune (reader l)")
  case None
  with assms(2) show ?thesis
    by (simp add: backup_def UnreadRune_def)
next
  case (Some r)
  with assms(3) have "\<not> skipped U r" "\<not> IsDigit U r"
    by simp_all
  from same_tokens.single [of U "[]" "[]", OF _ _ this assms(1)]
  have "same_tokens U (r # pending (reader l)) (r # pending (reader l'))"
    by simp
  with Some assms(2) show ?thesis
    by (simp add: backup_def UnreadRune_def)
qed

lemma parsePrimaryExpr_alike:
  assumes "same_tokens U (pending (reader l)) (pending (reader l'))"
  shows "alike U (parsePrimaryExpr U l) (parsePrimaryExpr U l')"
proof -
  from Lex_same_tokens [OF assms] obtain t l1 l1' where
    "Lex U l = Inr (t, l1)" "Lex U l' = Inr (t, l1')"
    "same_tokens U (pending (reader l1)) (pending (reader l1'))"
    by blast
  then show ?thesis
    by (cases t) (simp add: parsePrimaryExpr_def alike_def)
qed

lemma parseMulDiv_loop_alike:
  "same_tokens U (pending (reader l)) (pending (reader l')) \<Longrightarrow>
   unpositioned left = unpositioned left' \<Longrightarrow>
     alike U (parseMulDiv_loop U l left) (parseMulDiv_loop U l' left')"
proof (induction U l left arbitrary: l' left' rule: parseMulDiv_loop.induct)
  case (1 U l left)
  from Lex_same_tokens [OF "1.prems"(1)] obtain tok lit l1 l1' where
    lex: "Lex U l = Inr ((tok, lit), l1)" and lex': "Lex U l' = Inr ((tok, lit), l1')"
    and same: "same_tokens U (pending (reader l1)) (pending (reader l1'))"
    and last: "lastRune (reader l1) = lastRune (reader l1')"
      "\<forall>r. lastRune (reader l1) = Some r \<longrightarrow> \<not> skipped U r \<and> \<not> IsDigit U r"
    by (metis prod.exhaust)
  show ?case
  proof (cases "tok \<noteq> MUL \<and> tok \<noteq> DIV")
    case True
    with lex lex' backup_same_tokens [OF same last] "1.prems"(2) show ?thesis
      by (subst parseMulDiv_loop.simps, subst (2) parseMulDiv_loop.simps)
        (auto simp: alike_def)
  next
    case False
    note prim = parsePrimaryExpr_alike [OF same]
    show ?thesis
    proof (cases "parsePrimaryExpr U l1")
      case (Inl f)
      with prim lex lex' False show ?thesis
        by (subst parseMulDiv_loop.simps, subst (2) parseMulDiv_loop.simps)
          (auto simp: alike_def)
    next
      case (Inr x)
      then obtain right l2 where r: "parsePrimaryExpr U l1 = Inr (right, l2)"
        by (cases x) auto
      with prim obtain right' l2' where r': "parsePrimaryExpr U l1' = Inr (right', l2')"
        and rel: "unpositioned right = unpositioned right'"
          "same_tokens U (pending (reader l2)) (pending (reader l2'))"
        by (auto simp: alike_def split: sum.splits)
      have "unpositioned (BinaryExpression left tok right (Pos left)) =
          unpositioned (BinaryExpression left' tok right' (Pos left'))"
        using rel(1) "1.prems"(2) by simp
      note step = "1.IH" [OF lex refl refl False r refl rel(2) this]
      have "parseMulDiv_loop U l left =
          parseMulDiv_loop U l2 (BinaryExpression left tok right (Pos left))"
        using lex False r by (subst parseMulDiv_loop.simps) auto
      moreover have "parseMulDiv_loop U l' left' =
          parseMulDiv_loop U l2' (BinaryExpression left' tok right' (Pos left'))"
        using lex' False r' by (subst parseMulDiv_loop.simps) auto
      ultimately show ?thesis
        using step by simp
    qed
  qed
qed


lemma parseMulDivExpr_alike:
  assumes "same_tokens U (pending (reader l)) (pending (reader l'))"
  shows "alike U (parseMulDivExpr U l) (parseMulDivExpr U l')"
proof (cases "parsePrimaryExpr U l")
  case (Inl f)
  with parsePrimaryExpr_alike [OF assms] show ?thesis
    by (simp add: parseMulDivExpr_def alike_def)
next
  case (Inr x)
  then obtain left l1 where r: "parsePrimaryExpr U l = Inr (left, l1)"
    by (cases x) auto
  with parsePrimaryExpr_alike [OF assms] obtain left' l1' where
    r': "parsePrimaryExpr U l' = Inr (left', l1')"
    and rel: "same_tokens U (pending (reader l1)) (pending (reader l1'))"
      "unpositioned left = unpositioned left'"
    by (auto simp: alike_def split: sum.splits)
  from parseMulDiv_loop_alike [OF rel] r r' show ?thesis
    by (simp add: parseMulDivExpr_def)
qed

lemma parseAddSub_loop_alike:
  "same_tokens U (pending (reader l)) (pending (reader l')) \<Longrightarrow>
   unpositioned left = unpositioned left' \<Longrightarrow>
     alike U (parseAddSub_loop U l left) (parseAddSub_loop U l' left')"
proof (induction U l left arbitrary: l' left' rule: parseAddSub_loop.induct)
  case (1 U l left)
  from Lex_same_tokens [OF "1.prems"(1)] obtain tok lit l1 l1' where
    lex: "Lex U l = Inr ((tok, lit), l1)" and lex': "Lex U l' = Inr ((tok, lit), l1')"
    and same: "same_tokens U (pending (reader l1)) (pending (reader l1'))"
    and last: "lastRune (reader l1) = lastRune (reader l1')"
      "\<forall>r. lastRune (reader l1) = Some r \<longrightarrow> \<not> skipped U r \<and> \<not> IsDigit U r"
    by (metis prod.exhaust)
  show ?case
  proof (cases "tok \<noteq> ADD \<and> tok \<noteq> SUB")
    case True
    with lex lex' backup_same_tokens [OF same last] "1.prems"(2) show ?thesis
      by (subst parseAddSub_loop.simps, subst (2) parseAddSub_loop.simps)
        (auto simp: alike_def)
  next
    case False
    note operand = parseMulDivExpr_alike [OF same]
    show ?thesis
    proof (cases "parseMulDivExpr U l1")
      case (Inl f)
      with operand lex lex' False show ?thesis
        by (subst parseAddSub_loop.simps, subst (2) parseAddSub_loop.simps)
          (auto simp: alike_def)
    next
      case (Inr x)
      then obtain right l2 where r: "parseMulDivExpr U l1 = Inr (right, l2)"
        by (cases x) auto
      with operand obtain right' l2' where r': "parseMulDivExpr U l1' = Inr (right', l2')"
        and rel: "unpositioned right = unpositioned right'"
          "same_tokens U (pending (reader l2)) (pending (reader l2'))"
        by (auto simp: alike_def split: sum.splits)
      have "unpositioned (BinaryExpression left tok right (Pos left)) =
          unpositioned (BinaryExpression left' tok right' (Pos left'))"
        using rel(1) "1.prems"(2) by simp
      note step = "1.IH" [OF lex refl refl False r refl rel(2) this]
      have "parseAddSub_loop U l left =
          parseAddSub_loop U l2 (BinaryExpression left tok right (Pos left))"
        using lex False r by (subst parseAddSub_loop.simps) auto
      moreover have "parseAddSub_loop U l' left' =
          parseAddSub_loop U l2' (BinaryExpression left' tok right' (Pos left'))"
        using lex' False r' by (subst parseAddSub_loop.simps) auto
      ultimately show ?thesis
        using step by simp
    qed
  qed
qed

lemma parseExpression_alike:
  assumes "same_tokens U (pending (reader l)) (pending (reader l'))"
  shows "alike U (parseExpression U l) (parseExpression U l')"
proof (cases "parseMulDivExpr U l")
  case (Inl f)
  with parseMulDivExpr_alike [OF assms] show ?thesis
    by (simp add: parseExpression_def parseAddSubExpr_def alike_def)
next
  case (Inr x)
  then obtain left l1 where r: "parseMulDivExpr U l = Inr (left, l1)"
    by (cases x) auto
  with parseMulDivExpr_alike [OF assms] obtain left' l1' where
    r': "parseMulDivExpr U l' = Inr (left', l1')"
    and rel: "same_tokens U (pending (reader l1)) (pending (reader l1'))"
      "unpositioned left = unpositioned left'"
    by (auto simp: alike_def split: sum.splits)
  from parseAddSub_loop_alike [OF rel] r r' show ?thesis
    by (simp add: parseExpression_def parseAddSubExpr_def)
qed

lemma String_unpositioned: "String (unpositioned e) = String e"
  by (induction e) simp_all

lemma evaluateExpression_unpositioned:
  "evaluateExpression (unpositioned e) = evaluateExpression e"
  by (induction e) (simp_all split: sum.splits)

text \<open>
  C8 (the code departs from it).  The claim: \<^verbatim>\<open>1 +\n2\<close> parses to the same tree as
  \<^verbatim>\<open>1+2\<close>.  The code: on both inputs the parser aborts in \<^verbatim>\<open>backup\<close> at the end of the
  input and returns no tree; the program prints nothing.
\<close>

theorem whitespace_inputs_abort:
  "parseExpression latin1 (NewLexer (runes ''1 +'' @ 10 # runes ''2'')) = Inl ErrInvalidUnreadRune \<and>
   parseExpression latin1 (NewLexer (runes ''1+2'')) = Inl ErrInvalidUnreadRune \<and>
   main latin1 (runes ''1 +'' @ 10 # runes ''2'') = ([], Some ErrInvalidUnreadRune) \<and>
   main latin1 (runes ''1+2'') = ([], Some ErrInvalidUnreadRune)"
  by code_simp

text \<open>
  Apart from that abort the parser does what the claim says.  For two inputs with the same
  tokens that differ only in whitespace between tokens, it ends in the same abort or
  returns trees that differ only in the positions of their nodes, and the program prints the
  same lines and ends the same way.
\<close>

lemma whitespace_between_tokens:
  assumes "same_tokens U s s'"
  shows "alike U (parseExpression U (NewLexer s)) (parseExpression U (NewLexer s')) \<and>
         main U s = main U s'"
proof -
  have rel: "alike U (parseExpression U (NewLexer s)) (parseExpression U (NewLexer s'))"
    using assms by (intro parseExpression_alike) (simp add: NewLexer_def)
  have "main U s = main U s'"
  proof (cases "parseExpression U (NewLexer s)")
    case (Inl f)
    with rel show ?thesis
      by (simp add: main_def alike_def)
  next
    case (Inr x)
    then obtain e l where r: "parseExpression U (NewLexer s) = Inr (e, l)"
      by (cases x) auto
    with rel obtain e' l' where r': "parseExpression U (NewLexer s') = Inr (e', l')"
      and same: "unpositioned e = unpositioned e'"
      by (auto simp: alike_def split: sum.splits)
    from same have "String e = String e'" "evaluateExpression e = evaluateExpression e'"
      by (metis String_unpositioned, metis evaluateExpression_unpositioned)
    with r r' show ?thesis
      by (simp add: main_def split: sum.splits)
  qed
  with rel show ?thesis ..
qed

text \<open>The inputs \<^verbatim>\<open>1 +\n2;\<close> and \<^verbatim>\<open>1+2;\<close>.\<close>

lemma spaced_example:
  "same_tokens latin1 (runes ''1 +'' @ 10 # runes ''2;'') (runes ''1+2;'')"
proof -
  have skip: "skipped latin1 32" "skipped latin1 10"
    and digit: "IsDigit latin1 49" "IsDigit latin1 50" "\<not> IsDigit latin1 43" "\<not> IsDigit latin1 59"
      "\<not> IsDigit latin1 32" "\<not> IsDigit latin1 10"
    and token: "\<not> skipped latin1 43" "\<not> skipped latin1 59" "\<not> skipped latin1 49" "\<not> skipped latin1 50"
    by (simp_all add: skipped_def IsSpace_def IsDigit_def MaxLatin1_def)
  have "same_tokens latin1 [] []"
    by (rule same_tokens.at_end) simp_all
  from same_tokens.single [of latin1 "[]" "[]" 59, OF _ _ _ _ this]
  have "same_tokens latin1 [59] [59]"
    using token digit by simp
  from same_tokens.number [of latin1 "[10]" "[]" "[50]" "[59]" "[59]", OF _ _ _ _ _ _ _ this]
  have "same_tokens latin1 [10, 50, 59] [50, 59]"
    using skip token digit by simp
  from same_tokens.single [of latin1 "[32]" "[]" 43, OF _ _ _ _ this]
  have "same_tokens latin1 [32, 43, 10, 50, 59] [43, 50, 59]"
    using skip token digit by simp
  from same_tokens.number [of latin1 "[]" "[]" "[49]" "[32, 43, 10, 50, 59]" "[43, 50, 59]",
      OF _ _ _ _ _ _ _ this]
  have "same_tokens latin1 [49, 32, 43, 10, 50, 59] [49, 43, 50, 59]"
    using skip token digit by simp
  then show ?thesis
    by (simp add: runes_def)
qed

lemma whitespace_between_tokens_example:
  "main latin1 (runes ''1 +'' @ 10 # runes ''2;'') = ([''(1 + 2)'', ''3''], None) \<and>
   main latin1 (runes ''1+2;'') = ([''(1 + 2)'', ''3''], None)"
proof -
  have "main latin1 (runes ''1+2;'') = ([''(1 + 2)'', ''3''], None)"
    by code_simp
  with whitespace_between_tokens [OF spaced_example] show ?thesis
    by simp
qed

text \<open>The positions in the two trees: the literal \<^verbatim>\<open>2\<close> is at line 2, column 1 in the first.\<close>

lemma whitespace_positions_example:
  "map_sum id fst (parseExpression latin1 (NewLexer (runes ''1 +'' @ 10 # runes ''2;''))) =
     Inr (BinaryExpression (IntegerLiteral 1 \<lparr>line = 1, column = 1\<rparr>) ADD
            (IntegerLiteral 2 \<lparr>line = 2, column = 1\<rparr>) \<lparr>line = 1, column = 1\<rparr>) \<and>
   map_sum id fst (parseExpression latin1 (NewLexer (runes ''1+2;''))) =
     Inr (BinaryExpression (IntegerLiteral 1 \<lparr>line = 1, column = 1\<rparr>) ADD
            (IntegerLiteral 2 \<lparr>line = 1, column = 3\<rparr>) \<lparr>line = 1, column = 1\<rparr>)"
  by code_simp

end
